theory Spec2Isabelle
  imports Complex_Main
begin

section \<open>Machine model\<close>

text \<open>
  The library is C11 compiled for x86-64 (LP64, little-endian): \<^verbatim>\<open>size_t\<close> is an
  unsigned 64-bit integer, \<^verbatim>\<open>double\<close> is IEEE-754 binary64 with round-to-nearest-even, and
  \<^verbatim>\<open>sizeof(struct _darray)\<close> is 48 (three \<^verbatim>\<open>size_t\<close>, three function pointers, data
  aligned to 16). Values of type \<^verbatim>\<open>size_t\<close> are natural numbers below \<open>2 ^ 64\<close>; every
  \<^verbatim>\<open>size_t\<close> computation of the source is followed by \<open>size_t\<close>, the reduction modulo
  \<open>2 ^ 64\<close>.
\<close>

type_synonym addr = nat

definition SIZE_MAX :: nat where
  "SIZE_MAX = 2 ^ 64 - 1"

definition size_t :: "nat \<Rightarrow> nat" where
  "size_t x = x mod 2 ^ 64"

text \<open>Unsigned subtraction \<^verbatim>\<open>a - b\<close> of two \<^verbatim>\<open>size_t\<close>: it wraps below zero.\<close>

definition size_t_sub :: "nat \<Rightarrow> nat \<Rightarrow> nat" where
  "size_t_sub a b = nat ((int a - int b) mod 2 ^ 64)"

definition sizeof_darray :: nat where
  "sizeof_darray = 48"

text \<open>
  Behaviour that C leaves undefined is a value of the model: an access outside the cells
  of the block, a \<^verbatim>\<open>double\<close> converted to \<^verbatim>\<open>size_t\<close> that does not fit, and a store
  through the \<^verbatim>\<open>NULL\<close> that a failed reallocation returned.
\<close>

datatype fault = OutOfBounds | ConversionOverflow | NullDereference

subsection \<open>Binary64 arithmetic on non-negative values\<close>

text \<open>
  A finite non-negative double is a pair \<open>(m, e)\<close> standing for \<open>m * 2 ^ e\<close>. Rounding
  keeps the 53 leading bits of an exact integer significand, ties to even; exponent
  overflow and subnormals cannot occur for the values \<^verbatim>\<open>DA_NEW_CAPACITY_FROM_LENGTH\<close>
  computes (between 13 and \<open>2 ^ 65\<close>).
\<close>

fun bitlen :: "nat \<Rightarrow> nat" where
  "bitlen n = (if n = 0 then 0 else Suc (bitlen (n div 2)))"

declare bitlen.simps [simp del]

definition round53 :: "nat \<Rightarrow> nat" where
  "round53 x =
     (let s = bitlen x - 53; q = x div 2 ^ s; r = x mod 2 ^ s
      in if 2 ^ s < 2 * r \<or> (2 * r = 2 ^ s \<and> odd q) then (q + 1) * 2 ^ s else q * 2 ^ s)"

type_synonym double = "nat \<times> int"

definition double_of_size_t :: "nat \<Rightarrow> double" where
  "double_of_size_t n = (round53 n, 0)"

definition double_mul :: "double \<Rightarrow> double \<Rightarrow> double" where
  "double_mul a b = (round53 (fst a * fst b), snd a + snd b)"

definition size_t_of_double :: "double \<Rightarrow> nat option" where
  "size_t_of_double a =
     (let v = (if 0 \<le> snd a then fst a * 2 ^ nat (snd a) else fst a div 2 ^ nat (- snd a))
      in if v \<le> SIZE_MAX then Some v else None)"

subsection \<open>Capacity from length\<close>

text \<open>
  \<^verbatim>\<open>#define DA_CAPACITY_FACTOR 1.3\<close>: the double nearest to 1.3 is
  \<open>5854679515581645 * 2 ^ -52\<close>.
  \<^verbatim>\<open>#define DA_NEW_CAPACITY_FROM_LENGTH(length) ((length) < DA_CAPACITY_MIN ?
      DA_CAPACITY_MIN : ((length)*DA_CAPACITY_FACTOR))\<close>
  The conditional expression has type \<^verbatim>\<open>double\<close>; every use assigns it to a \<^verbatim>\<open>size_t\<close>,
  which truncates towards zero and is undefined when the value does not fit.
\<close>

definition DA_CAPACITY_FACTOR :: double where
  "DA_CAPACITY_FACTOR = (5854679515581645, - 52)"

definition DA_CAPACITY_MIN :: nat where
  "DA_CAPACITY_MIN = 10"

definition DA_NEW_CAPACITY_FROM_LENGTH :: "nat \<Rightarrow> nat option" where
  "DA_NEW_CAPACITY_FROM_LENGTH len =
     (if len < DA_CAPACITY_MIN then Some DA_CAPACITY_MIN
      else size_t_of_double (double_mul (double_of_size_t len) DA_CAPACITY_FACTOR))"


section \<open>The block: header and cells\<close>

text \<open>
  \<^verbatim>\<open>struct da_mem_funcs { void* (*alloc_f)(size_t); void* (*realloc_f)(void*, size_t);
      void (*free_f)(void*); };\<close>
  The three functions are supplied by the caller (\<^verbatim>\<open>malloc\<close>, \<^verbatim>\<open>realloc\<close> and
  \<^verbatim>\<open>free\<close> by default), so the model takes them as values. An allocator has a state of
  its own, of type \<open>'m\<close>, which every call receives and returns. A call that succeeds
  returns the address of the block together with the indeterminate contents of its
  fresh cells (a function from the cell index); \<open>None\<close> is the \<^verbatim>\<open>NULL\<close> of a failure.
\<close>

record ('m, 'a) da_mem_funcs =
  alloc_f :: "'m \<Rightarrow> nat \<Rightarrow> (addr \<times> (nat \<Rightarrow> 'a)) option \<times> 'm"
  realloc_f :: "'m \<Rightarrow> addr \<Rightarrow> nat \<Rightarrow> (addr \<times> (nat \<Rightarrow> 'a)) option \<times> 'm"
  free_f :: "'m \<Rightarrow> addr \<Rightarrow> 'm"

text \<open>
  \<^verbatim>\<open>struct _darray { size_t _elemsz, _length, _capacity; struct da_mem_funcs _mem_funcs;
      alignas(alignof(max_align_t)) char _data[]; };\<close>
  One value of the record is one block of memory: its address (the handle and the head
  differ by the constant \<^verbatim>\<open>sizeof(struct _darray)\<close> and are identified), the header
  fields, and \<open>d_data\<close>, one entry for every cell of \<^verbatim>\<open>_elemsz\<close> bytes that the block
  really has. Cells are typed: \<open>'a\<close> is the \<^verbatim>\<open>ELEM_TYPE\<close> of the macros, and byte offsets
  \<^verbatim>\<open>_elemsz * i\<close> are cell indices \<open>i\<close>.
\<close>

record ('m, 'a) darray =
  d_handle :: addr
  d_elemsz :: nat
  d_length :: nat
  d_capacity :: nat
  d_mem_funcs :: "('m, 'a) da_mem_funcs"
  d_data :: "'a list"

text \<open>
  What a pointer-returning operation yields: a fault, or the returned pointer
  (\<open>None\<close> for \<^verbatim>\<open>NULL\<close>) with the allocator state and the block as the call leaves them.
\<close>

type_synonym ('m, 'a) ret = "fault + (addr option \<times> 'm \<times> ('m, 'a) darray)"

text \<open>The cells of a block of \<open>bytes\<close> bytes, after the header.\<close>

definition block_cells :: "nat \<Rightarrow> nat \<Rightarrow> nat" where
  "block_cells bytes elemsz = (bytes - sizeof_darray) div elemsz"

definition fresh_data :: "(nat \<Rightarrow> 'a) \<Rightarrow> nat \<Rightarrow> 'a list" where
  "fresh_data junk k = map junk [0..<k]"

text \<open>
  The contract of \<^verbatim>\<open>realloc\<close>: the contents are kept up to the smaller of the old and
  the new size, the rest of the new block is indeterminate.
\<close>

definition moved_data :: "'a list \<Rightarrow> (nat \<Rightarrow> 'a) \<Rightarrow> nat \<Rightarrow> 'a list" where
  "moved_data old junk k = take k old @ map junk [length old..<k]"

definition realloc_block ::
  "('m, 'a) darray \<Rightarrow> addr \<Rightarrow> (nat \<Rightarrow> 'a) \<Rightarrow> nat \<Rightarrow> ('m, 'a) darray" where
  "realloc_block darr p junk bytes =
     darr\<lparr>d_handle := p,
          d_data := moved_data (d_data darr) junk (block_cells bytes (d_elemsz darr))\<rparr>"

text \<open>Writing the cells \<open>vs\<close> at index \<open>i\<close>, and the two library copies, in cells.\<close>

definition mem_write :: "'a list \<Rightarrow> nat \<Rightarrow> 'a list \<Rightarrow> 'a list" where
  "mem_write xs i vs = take i xs @ vs @ drop (i + length vs) xs"

definition memmove :: "'a list \<Rightarrow> nat \<Rightarrow> nat \<Rightarrow> nat \<Rightarrow> fault + 'a list" where
  "memmove xs dst src n =
     (if src + n \<le> length xs \<and> dst + n \<le> length xs
      then Inr (mem_write xs dst (take n (drop src xs))) else Inl OutOfBounds)"

definition memcpy :: "'a list \<Rightarrow> nat \<Rightarrow> 'a list \<Rightarrow> nat \<Rightarrow> fault + 'a list" where
  "memcpy xs dst src n =
     (if dst + n \<le> length xs \<and> n \<le> length src
      then Inr (mem_write xs dst (take n src)) else Inl OutOfBounds)"

section \<open>darray core\<close>

definition da_alloc ::
  "('m, 'a) da_mem_funcs \<Rightarrow> 'm \<Rightarrow> nat \<Rightarrow> nat \<Rightarrow> fault + (('m, 'a) darray option \<times> 'm)" where
  "da_alloc DA_DEFAULT_MEM_FUNCS m nelem elem_size =
     (case DA_NEW_CAPACITY_FROM_LENGTH nelem of
        None \<Rightarrow> Inl ConversionOverflow
      | Some capacity \<Rightarrow>
          (case alloc_f DA_DEFAULT_MEM_FUNCS m (size_t (sizeof_darray + capacity * elem_size)) of
             (None, m') \<Rightarrow> Inr (None, m')
           | (Some (p, junk), m') \<Rightarrow>
               if size_t (sizeof_darray + capacity * elem_size) < sizeof_darray
               then Inl OutOfBounds
               else Inr (Some \<lparr>d_handle = p, d_elemsz = elem_size, d_length = nelem,
                     d_capacity = capacity, d_mem_funcs = DA_DEFAULT_MEM_FUNCS,
                     d_data = fresh_data junk
                       (block_cells (size_t (sizeof_darray + capacity * elem_size)) elem_size)\<rparr>,
                   m')))"

definition da_alloc_exact ::
  "('m, 'a) da_mem_funcs \<Rightarrow> 'm \<Rightarrow> nat \<Rightarrow> nat \<Rightarrow> fault + (('m, 'a) darray option \<times> 'm)" where
  "da_alloc_exact DA_DEFAULT_MEM_FUNCS m nelem elem_size =
     (case alloc_f DA_DEFAULT_MEM_FUNCS m (size_t (sizeof_darray + nelem * elem_size)) of
        (None, m') \<Rightarrow> Inr (None, m')
      | (Some (p, junk), m') \<Rightarrow>
          if size_t (sizeof_darray + nelem * elem_size) < sizeof_darray
          then Inl OutOfBounds
          else Inr (Some \<lparr>d_handle = p, d_elemsz = elem_size, d_length = nelem,
                d_capacity = nelem, d_mem_funcs = DA_DEFAULT_MEM_FUNCS,
                d_data = fresh_data junk
                  (block_cells (size_t (sizeof_darray + nelem * elem_size)) elem_size)\<rparr>,
              m'))"

definition da_alloc_custom ::
  "('m, 'a) da_mem_funcs \<Rightarrow> 'm \<Rightarrow> nat \<Rightarrow> nat \<Rightarrow> fault + (('m, 'a) darray option \<times> 'm)" where
  "da_alloc_custom mem_funcs m nelem elem_size =
     (case DA_NEW_CAPACITY_FROM_LENGTH nelem of
        None \<Rightarrow> Inl ConversionOverflow
      | Some capacity \<Rightarrow>
          (case alloc_f mem_funcs m (size_t (sizeof_darray + capacity * elem_size)) of
             (None, m') \<Rightarrow> Inr (None, m')
           | (Some (p, junk), m') \<Rightarrow>
               if size_t (sizeof_darray + capacity * elem_size) < sizeof_darray
               then Inl OutOfBounds
               else Inr (Some \<lparr>d_handle = p, d_elemsz = elem_size, d_length = nelem,
                     d_capacity = capacity, d_mem_funcs = mem_funcs,
                     d_data = fresh_data junk
                       (block_cells (size_t (sizeof_darray + capacity * elem_size)) elem_size)\<rparr>,
                   m')))"

definition da_alloc_exact_custom ::
  "('m, 'a) da_mem_funcs \<Rightarrow> 'm \<Rightarrow> nat \<Rightarrow> nat \<Rightarrow> fault + (('m, 'a) darray option \<times> 'm)" where
  "da_alloc_exact_custom mem_funcs m nelem elem_size =
     (case alloc_f mem_funcs m (size_t (sizeof_darray + nelem * elem_size)) of
        (None, m') \<Rightarrow> Inr (None, m')
      | (Some (p, junk), m') \<Rightarrow>
          if size_t (sizeof_darray + nelem * elem_size) < sizeof_darray
          then Inl OutOfBounds
          else Inr (Some \<lparr>d_handle = p, d_elemsz = elem_size, d_length = nelem,
                d_capacity = nelem, d_mem_funcs = mem_funcs,
                d_data = fresh_data junk
                  (block_cells (size_t (sizeof_darray + nelem * elem_size)) elem_size)\<rparr>,
              m'))"

definition da_length :: "('m, 'a) darray \<Rightarrow> nat" where
  "da_length darr = d_length darr"

definition da_capacity :: "('m, 'a) darray \<Rightarrow> nat" where
  "da_capacity darr = d_capacity darr"

definition da_sizeof_elem :: "('m, 'a) darray \<Rightarrow> nat" where
  "da_sizeof_elem darr = d_elemsz darr"

definition da_resize :: "'m \<Rightarrow> ('m, 'a) darray \<Rightarrow> nat \<Rightarrow> ('m, 'a) ret" where
  "da_resize m darr nelem =
     (case DA_NEW_CAPACITY_FROM_LENGTH nelem of
        None \<Rightarrow> Inl ConversionOverflow
      | Some new_capacity \<Rightarrow>
          (let new_arr_size = size_t (sizeof_darray + new_capacity * da_sizeof_elem darr)
           in case realloc_f (d_mem_funcs darr) m (d_handle darr) new_arr_size of
                (None, m') \<Rightarrow> Inr (None, m', darr)
              | (Some (p, junk), m') \<Rightarrow>
                  if new_arr_size < sizeof_darray then Inl OutOfBounds
                  else Inr (Some p, m',
                    (realloc_block darr p junk new_arr_size)
                      \<lparr>d_length := nelem, d_capacity := new_capacity\<rparr>)))"

definition da_resize_exact :: "'m \<Rightarrow> ('m, 'a) darray \<Rightarrow> nat \<Rightarrow> ('m, 'a) ret" where
  "da_resize_exact m darr nelem =
     (let new_arr_size = size_t (sizeof_darray + nelem * da_sizeof_elem darr)
      in case realloc_f (d_mem_funcs darr) m (d_handle darr) new_arr_size of
           (None, m') \<Rightarrow> Inr (None, m', darr)
         | (Some (p, junk), m') \<Rightarrow>
             if new_arr_size < sizeof_darray then Inl OutOfBounds
             else Inr (Some p, m',
               (realloc_block darr p junk new_arr_size)
                 \<lparr>d_length := nelem, d_capacity := nelem\<rparr>))"

definition da_reserve :: "'m \<Rightarrow> ('m, 'a) darray \<Rightarrow> nat \<Rightarrow> ('m, 'a) ret" where
  "da_reserve m darr nelem =
     (let min_capacity = size_t (da_length darr + nelem)
      in if da_capacity darr \<ge> min_capacity then Inr (Some (d_handle darr), m, darr)
         else case DA_NEW_CAPACITY_FROM_LENGTH min_capacity of
           None \<Rightarrow> Inl ConversionOverflow
         | Some new_capacity \<Rightarrow>
             (let new_arr_size = size_t (sizeof_darray + new_capacity * da_sizeof_elem darr)
              in case realloc_f (d_mem_funcs darr) m (d_handle darr) new_arr_size of
                   (None, m') \<Rightarrow> Inr (None, m', darr)
                 | (Some (p, junk), m') \<Rightarrow>
                     if new_arr_size < sizeof_darray then Inl OutOfBounds
                     else Inr (Some p, m',
                       (realloc_block darr p junk new_arr_size)
                         \<lparr>d_capacity := new_capacity\<rparr>)))"

text \<open>
  \<^verbatim>\<open>da_insert_arr\<close>: reserve, move the tail up by \<open>nelem\<close> cells, copy \<open>nelem\<close> cells of
  \<open>src\<close> into the gap, add \<open>nelem\<close> to the length. \<open>src\<close> is the array the pointer
  refers to.
\<close>

definition da_insert_arr ::
  "'m \<Rightarrow> ('m, 'a) darray \<Rightarrow> nat \<Rightarrow> 'a list \<Rightarrow> nat \<Rightarrow> ('m, 'a) ret" where
  "da_insert_arr m darr index src nelem =
     (case da_reserve m darr nelem of
        Inl f \<Rightarrow> Inl f
      | Inr (None, m', d') \<Rightarrow> Inr (None, m', d')
      | Inr (Some p, m', d') \<Rightarrow>
          (case memmove (d_data d') (size_t (index + nelem)) index
                  (size_t_sub (da_length d') index) of
             Inl f \<Rightarrow> Inl f
           | Inr moved \<Rightarrow>
               (case memcpy moved index src nelem of
                  Inl f \<Rightarrow> Inl f
                | Inr copied \<Rightarrow>
                    Inr (Some p, m',
                      d'\<lparr>d_data := copied, d_length := size_t (da_length d' + nelem)\<rparr>))))"

definition da_remove_arr :: "('m, 'a) darray \<Rightarrow> nat \<Rightarrow> nat \<Rightarrow> fault + ('m, 'a) darray" where
  "da_remove_arr darr index nelem =
     (case memmove (d_data darr) index (size_t (index + nelem))
             (size_t_sub (size_t_sub (da_length darr) index) nelem) of
        Inl f \<Rightarrow> Inl f
      | Inr moved \<Rightarrow>
          Inr (darr\<lparr>d_data := moved, d_length := size_t_sub (da_length darr) nelem\<rparr>))"

definition da_concat :: "'m \<Rightarrow> ('m, 'a) darray \<Rightarrow> 'a list \<Rightarrow> nat \<Rightarrow> ('m, 'a) ret" where
  "da_concat m dest src nelem =
     (let offset = da_length dest
      in case da_reserve m dest nelem of
           Inl f \<Rightarrow> Inl f
         | Inr (None, m', d') \<Rightarrow> Inr (None, m', d')
         | Inr (Some p, m', d') \<Rightarrow>
             (case memcpy (d_data d') offset src nelem of
                Inl f \<Rightarrow> Inl f
              | Inr copied \<Rightarrow>
                  Inr (Some p, m',
                    d'\<lparr>d_data := copied, d_length := size_t (da_length d' + nelem)\<rparr>)))"

subsection \<open>The macros of the header\<close>

text \<open>\<^verbatim>\<open>_darr[(*DA_P_LENGTH_FROM_HANDLE(_darr))++] = _value;\<close>\<close>

definition store_back :: "'m \<Rightarrow> ('m, 'a) darray \<Rightarrow> 'a \<Rightarrow> ('m, 'a) ret" where
  "store_back m darr v =
     (if da_length darr < length (d_data darr)
      then Inr (Some (d_handle darr), m,
        darr\<lparr>d_data := (d_data darr)[da_length darr := v],
             d_length := size_t (da_length darr + 1)\<rparr>)
      else Inl OutOfBounds)"

definition da_push :: "'m \<Rightarrow> ('m, 'a) darray \<Rightarrow> 'a \<Rightarrow> ('m, 'a) ret" where
  "da_push m darr v =
     (if da_length darr = da_capacity darr
      then (case da_reserve m darr 1 of
              Inl f \<Rightarrow> Inl f
            | Inr (None, m', d') \<Rightarrow> Inr (None, m', d')
            | Inr (Some p, m', d') \<Rightarrow> store_back m' d' v)
      else store_back m darr v)"

text \<open>\<^verbatim>\<open>(_darr)[--(*DA_P_LENGTH_FROM_HANDLE(_darr))]\<close>\<close>

definition da_pop :: "('m, 'a) darray \<Rightarrow> fault + ('a \<times> ('m, 'a) darray)" where
  "da_pop darr =
     (let new_length = size_t_sub (da_length darr) 1
      in if new_length < length (d_data darr)
         then Inr (d_data darr ! new_length, darr\<lparr>d_length := new_length\<rparr>)
         else Inl OutOfBounds)"

text \<open>
  \<^verbatim>\<open>_da_move_and_insert(darr, index, value)\<close>: \<^verbatim>\<open>memmove(darr+index+1, darr+index,
  elemsz * (length - index)); darr[index] = value; length++;\<close>
\<close>

definition da_move_and_insert :: "'m \<Rightarrow> ('m, 'a) darray \<Rightarrow> nat \<Rightarrow> 'a \<Rightarrow> ('m, 'a) ret" where
  "da_move_and_insert m darr index v =
     (case memmove (d_data darr) (index + 1) index (size_t_sub (da_length darr) index) of
        Inl f \<Rightarrow> Inl f
      | Inr moved \<Rightarrow>
          if index < length moved
          then Inr (Some (d_handle darr), m,
            darr\<lparr>d_data := moved[index := v], d_length := size_t (da_length darr + 1)\<rparr>)
          else Inl OutOfBounds)"

text \<open>
  \<^verbatim>\<open>_da_insert\<close>: \<^verbatim>\<open>if (length == capacity) { _darr = da_reserve(_darr, 1);
      if (_darr != NULL) _da_move_and_insert(_darr, _index, _value); }
    else { _da_move_and_insert(_darr, _index, _value); }\<close>
  \<^verbatim>\<open>_da_move_and_insert\<close> expands to three statements without braces, so the test
  \<^verbatim>\<open>_darr != NULL\<close> guards the \<^verbatim>\<open>memmove\<close> alone: after a failed reservation the store
  \<^verbatim>\<open>darr[index] = value\<close> and the increment of the length go through \<^verbatim>\<open>NULL\<close>.
\<close>

definition da_insert :: "'m \<Rightarrow> ('m, 'a) darray \<Rightarrow> nat \<Rightarrow> 'a \<Rightarrow> ('m, 'a) ret" where
  "da_insert m darr index v =
     (if da_length darr = da_capacity darr
      then (case da_reserve m darr 1 of
              Inl f \<Rightarrow> Inl f
            | Inr (None, m', d') \<Rightarrow> Inl NullDereference
            | Inr (Some p, m', d') \<Rightarrow> da_move_and_insert m' d' index v)
      else da_move_and_insert m darr index v)"

definition da_remove :: "('m, 'a) darray \<Rightarrow> nat \<Rightarrow> fault + ('a \<times> ('m, 'a) darray)" where
  "da_remove darr index =
     (if index < length (d_data darr)
      then (case memmove (d_data darr) index (index + 1)
                    (size_t_sub (size_t_sub (da_length darr) index) 1) of
              Inl f \<Rightarrow> Inl f
            | Inr moved \<Rightarrow>
                Inr (d_data darr ! index,
                  darr\<lparr>d_data := moved, d_length := size_t_sub (da_length darr) 1\<rparr>))
      else Inl OutOfBounds)"


section \<open>dstring\<close>

text \<open>
  A dstring is a \<^verbatim>\<open>darray(char)\<close>. A \<^verbatim>\<open>const char*\<close> argument is the list of the
  characters it points to; the C string it denotes ends before the first zero
  character (or at the end of the list, where the terminator stands).
\<close>

definition NUL :: char where
  "NUL = CHR 0x00"

definition c_str :: "string \<Rightarrow> string" where
  "c_str s = takeWhile (\<lambda>c. c \<noteq> NUL) s"

definition strlen :: "string \<Rightarrow> nat" where
  "strlen s = length (c_str s)"

definition cstr_bytes :: "string \<Rightarrow> string" where
  "cstr_bytes s = c_str s @ [NUL]"

text \<open>\<^verbatim>\<open>isspace\<close>, \<^verbatim>\<open>tolower\<close> and \<^verbatim>\<open>toupper\<close> of the C locale.\<close>

definition isspace :: "char \<Rightarrow> bool" where
  "isspace c = (c = CHR '' '' \<or> c = CHR 0x09 \<or> c = CHR 0x0A \<or> c = CHR 0x0B
     \<or> c = CHR 0x0C \<or> c = CHR 0x0D)"

definition tolower :: "char \<Rightarrow> char" where
  "tolower c = (if 65 \<le> (of_char c :: nat) \<and> (of_char c :: nat) \<le> 90
     then char_of (of_char c + 32 :: nat) else c)"

definition toupper :: "char \<Rightarrow> char" where
  "toupper c = (if 97 \<le> (of_char c :: nat) \<and> (of_char c :: nat) \<le> 122
     then char_of (of_char c - 32 :: nat) else c)"

text \<open>
  Reading a dstring as a C string (\<^verbatim>\<open>strstr\<close>, \<^verbatim>\<open>_da_strcasestr\<close>) scans for the
  terminator; a block without one is read past its end.
\<close>

definition dstr_text :: "('m, char) darray \<Rightarrow> fault + string" where
  "dstr_text dstr = (if NUL \<in> set (d_data dstr) then Inr (c_str (d_data dstr)) else Inl OutOfBounds)"

definition dstr_alloc_empty ::
  "('m, char) da_mem_funcs \<Rightarrow> 'm \<Rightarrow> fault + (('m, char) darray option \<times> 'm)" where
  "dstr_alloc_empty DA_DEFAULT_MEM_FUNCS m =
     (case da_alloc DA_DEFAULT_MEM_FUNCS m 1 1 of
        Inl f \<Rightarrow> Inl f
      | Inr (None, m') \<Rightarrow> Inr (None, m')
      | Inr (Some dstr, m') \<Rightarrow>
          if 0 < length (d_data dstr)
          then Inr (Some (dstr\<lparr>d_data := (d_data dstr)[0 := NUL]\<rparr>), m')
          else Inl OutOfBounds)"

definition dstr_alloc_cstr ::
  "('m, char) da_mem_funcs \<Rightarrow> 'm \<Rightarrow> string \<Rightarrow> fault + (('m, char) darray option \<times> 'm)" where
  "dstr_alloc_cstr DA_DEFAULT_MEM_FUNCS m src =
     (let src_len_with_nullterm = size_t (strlen src + 1)
      in case da_alloc DA_DEFAULT_MEM_FUNCS m src_len_with_nullterm 1 of
           Inl f \<Rightarrow> Inl f
         | Inr (None, m') \<Rightarrow> Inr (None, m')
         | Inr (Some dstr, m') \<Rightarrow>
             (case memcpy (d_data dstr) 0 (cstr_bytes src) src_len_with_nullterm of
                Inl f \<Rightarrow> Inl f
              | Inr copied \<Rightarrow> Inr (Some (dstr\<lparr>d_data := copied\<rparr>), m')))"

definition dstr_reassign_empty :: "'m \<Rightarrow> ('m, char) darray \<Rightarrow> ('m, char) ret" where
  "dstr_reassign_empty m allocated_dstr =
     da_concat m (allocated_dstr\<lparr>d_length := 0\<rparr>) [NUL] 1"

definition dstr_reassign_cstr :: "'m \<Rightarrow> ('m, char) darray \<Rightarrow> string \<Rightarrow> ('m, char) ret" where
  "dstr_reassign_cstr m allocated_dstr src =
     da_concat m (allocated_dstr\<lparr>d_length := 0\<rparr>) (cstr_bytes src) (size_t (strlen src + 1))"

text \<open>
  \<^verbatim>\<open>*DA_P_LENGTH_FROM_HANDLE(allocated_dstr) = 0;
    allocated_dstr = da_concat(allocated_dstr, src, da_length(src));\<close>
  The source is read after the length of the target has been set to zero. Two handles
  are the same pointer when their addresses are equal, and then it is the target, with
  its length of zero, that \<^verbatim>\<open>da_length(src)\<close> reads.
\<close>

definition dstr_reassign_dstr ::
  "'m \<Rightarrow> ('m, char) darray \<Rightarrow> ('n, char) darray \<Rightarrow> ('m, char) ret" where
  "dstr_reassign_dstr m allocated_dstr src =
     (let dest = allocated_dstr\<lparr>d_length := 0\<rparr>;
          same = (d_handle src = d_handle allocated_dstr);
          src_cells = (if same then d_data dest else d_data src);
          src_length = (if same then da_length dest else da_length src)
      in da_concat m dest src_cells src_length)"

text \<open>
  The formatting functions of the C library are not part of the repository: \<open>rendered\<close>
  is the text that the format string and its arguments render to. \<^verbatim>\<open>vsnprintf(NULL, 0,
  format, copy)\<close> returns its length, \<^verbatim>\<open>vsprintf\<close> writes it followed by a terminator.
\<close>

definition dstr_reassign_format :: "'m \<Rightarrow> ('m, char) darray \<Rightarrow> string \<Rightarrow> ('m, char) ret" where
  "dstr_reassign_format m allocated_dstr rendered =
     (let size = size_t (length rendered + 1)
      in case da_reserve m (allocated_dstr\<lparr>d_length := 0\<rparr>) size of
           Inl f \<Rightarrow> Inl f
         | Inr (None, m', d') \<Rightarrow> Inr (None, m', d')
         | Inr (Some p, m', d') \<Rightarrow>
             (case memcpy (d_data d') 0 (rendered @ [NUL]) (length rendered + 1) of
                Inl f \<Rightarrow> Inl f
              | Inr written \<Rightarrow> Inr (Some p, m', d'\<lparr>d_data := written, d_length := size\<rparr>)))"

definition dstr_length :: "('m, char) darray \<Rightarrow> nat" where
  "dstr_length dstr = size_t_sub (da_length dstr) 1"

definition dstr_concat_char :: "'m \<Rightarrow> ('m, char) darray \<Rightarrow> char \<Rightarrow> ('m, char) ret" where
  "dstr_concat_char m dest c = da_insert m dest (size_t_sub (da_length dest) 1) c"

definition dstr_concat_cstr :: "'m \<Rightarrow> ('m, char) darray \<Rightarrow> string \<Rightarrow> ('m, char) ret" where
  "dstr_concat_cstr m dest src =
     (let dest_strlen = dstr_length dest; src_strlen = strlen src
      in case da_reserve m dest src_strlen of
           Inl f \<Rightarrow> Inl f
         | Inr (None, m', d') \<Rightarrow> Inr (None, m', d')
         | Inr (Some p, m', d') \<Rightarrow>
             (case memcpy (d_data d') dest_strlen (cstr_bytes src) (size_t (src_strlen + 1)) of
                Inl f \<Rightarrow> Inl f
              | Inr copied \<Rightarrow>
                  Inr (Some p, m',
                    d'\<lparr>d_data := copied, d_length := size_t (da_length d' + src_strlen)\<rparr>)))"

definition dstr_concat_dstr ::
  "'m \<Rightarrow> ('m, char) darray \<Rightarrow> ('n, char) darray \<Rightarrow> ('m, char) ret" where
  "dstr_concat_dstr m dest src =
     (let dest_strlen = dstr_length dest; src_strlen = dstr_length src
      in case da_reserve m dest src_strlen of
           Inl f \<Rightarrow> Inl f
         | Inr (None, m', d') \<Rightarrow> Inr (None, m', d')
         | Inr (Some p, m', d') \<Rightarrow>
             (case memcpy (d_data d') dest_strlen (d_data src) (size_t (src_strlen + 1)) of
                Inl f \<Rightarrow> Inl f
              | Inr copied \<Rightarrow>
                  Inr (Some p, m',
                    d'\<lparr>d_data := copied, d_length := size_t (da_length d' + src_strlen)\<rparr>)))"

definition dstr_concat_format :: "'m \<Rightarrow> ('m, char) darray \<Rightarrow> string \<Rightarrow> ('m, char) ret" where
  "dstr_concat_format m dest rendered =
     (let dest_strlen = dstr_length dest; formatted_strlen = length rendered
      in case da_reserve m dest formatted_strlen of
           Inl f \<Rightarrow> Inl f
         | Inr (None, m', d') \<Rightarrow> Inr (None, m', d')
         | Inr (Some p, m', d') \<Rightarrow>
             (case memcpy (d_data d') dest_strlen (rendered @ [NUL]) (formatted_strlen + 1) of
                Inl f \<Rightarrow> Inl f
              | Inr written \<Rightarrow>
                  Inr (Some p, m',
                    d'\<lparr>d_data := written,
                       d_length := size_t (da_length d' + formatted_strlen)\<rparr>)))"

subsection \<open>Search\<close>

text \<open>
  \<^verbatim>\<open>strstr\<close> of the C library, on the characters before the terminators: the index of
  the first occurrence of the needle, 0 for the empty needle.
\<close>

fun strstr :: "string \<Rightarrow> string \<Rightarrow> nat option" where
  "strstr [] needle = (if needle = [] then Some 0 else None)"
| "strstr (h # hs) needle =
     (if take (length needle) (h # hs) = needle then Some 0
      else map_option Suc (strstr hs needle))"

definition dstr_find :: "('m, char) darray \<Rightarrow> string \<Rightarrow> fault + int" where
  "dstr_find dstr substr =
     (case dstr_text dstr of
        Inl f \<Rightarrow> Inl f
      | Inr hay \<Rightarrow>
          Inr (case strstr hay (c_str substr) of None \<Rightarrow> - 1 | Some loc \<Rightarrow> int loc))"

text \<open>
  \<^verbatim>\<open>_da_strcasestr\<close>: \<open>start\<close> is \<^verbatim>\<open>haystack\<close>, \<open>currh\<close> and \<open>currn\<close> are the two
  cursors, as offsets; an offset at the end of a text reads its terminator.
\<close>

function da_strcasestr :: "string \<Rightarrow> string \<Rightarrow> nat \<Rightarrow> nat \<Rightarrow> nat \<Rightarrow> nat option" where
  "da_strcasestr hay needle start currh currn =
     (if length needle \<le> currn then Some start
      else if length hay \<le> currh then None
      else if tolower (hay ! currh) \<noteq> tolower (needle ! currn)
        then da_strcasestr hay needle (Suc currh) (Suc currh) 0
        else da_strcasestr hay needle start (Suc currh) (Suc currn))"
  by pat_completeness auto
termination
  by (relation "measure (\<lambda>(hay, needle, start, currh, currn). length hay - currh)") auto

declare da_strcasestr.simps [simp del]

definition dstr_find_case :: "('m, char) darray \<Rightarrow> string \<Rightarrow> fault + int" where
  "dstr_find_case dstr substr =
     (case dstr_text dstr of
        Inl f \<Rightarrow> Inl f
      | Inr hay \<Rightarrow>
          Inr (case da_strcasestr hay (c_str substr) 0 0 0 of
                 None \<Rightarrow> - 1 | Some loc \<Rightarrow> int loc))"

subsection \<open>Replace\<close>

text \<open>
  \<^verbatim>\<open>while ((loc = dstr_find(dstr, substr)) != -1) { da_remove_arr(dstr, loc, substr_len);
      if ((dstr = da_insert_arr(dstr, loc, new_str, new_str_len)) == NULL) return NULL; }
    return dstr;\<close>
  The loop need not end, so the result is an option: \<open>None\<close> is a call that never
  returns.
\<close>

partial_function (option) dstr_replace_all ::
  "'m \<Rightarrow> ('m, char) darray \<Rightarrow> string \<Rightarrow> string \<Rightarrow> ('m, char) ret option" where
  "dstr_replace_all m dstr substr new_str =
     (case dstr_find dstr substr of
        Inl f \<Rightarrow> Some (Inl f)
      | Inr loc \<Rightarrow>
          if loc = - 1 then Some (Inr (Some (d_handle dstr), m, dstr))
          else (case da_remove_arr dstr (nat loc) (strlen substr) of
                  Inl f \<Rightarrow> Some (Inl f)
                | Inr removed \<Rightarrow>
                    (case da_insert_arr m removed (nat loc) (cstr_bytes new_str) (strlen new_str) of
                       Inl f \<Rightarrow> Some (Inl f)
                     | Inr (None, m', d') \<Rightarrow> Some (Inr (None, m', d'))
                     | Inr (Some p, m', d') \<Rightarrow> dstr_replace_all m' d' substr new_str)))"

partial_function (option) dstr_replace_all_case ::
  "'m \<Rightarrow> ('m, char) darray \<Rightarrow> string \<Rightarrow> string \<Rightarrow> ('m, char) ret option" where
  "dstr_replace_all_case m dstr substr new_str =
     (case dstr_find_case dstr substr of
        Inl f \<Rightarrow> Some (Inl f)
      | Inr loc \<Rightarrow>
          if loc = - 1 then Some (Inr (Some (d_handle dstr), m, dstr))
          else (case da_remove_arr dstr (nat loc) (strlen substr) of
                  Inl f \<Rightarrow> Some (Inl f)
                | Inr removed \<Rightarrow>
                    (case da_insert_arr m removed (nat loc) (cstr_bytes new_str) (strlen new_str) of
                       Inl f \<Rightarrow> Some (Inl f)
                     | Inr (None, m', d') \<Rightarrow> Some (Inr (None, m', d'))
                     | Inr (Some p, m', d') \<Rightarrow> dstr_replace_all_case m' d' substr new_str)))"


subsection \<open>Reading up to a delimiter\<close>

text \<open>
  The stream is the list of the bytes still to be read. \<^verbatim>\<open>fgetc\<close> returns the next
  byte as a non-negative \<^verbatim>\<open>int\<close>, or \<^verbatim>\<open>EOF\<close> once the list is empty.
  \<^verbatim>\<open>while ((c = fgetc(stream)) != delim) { if (delim != EOF && c == EOF) return NULL;
      allocated_dstr = dstr_concat_char(allocated_dstr, c);
      if (allocated_dstr == NULL) return NULL; } return allocated_dstr;\<close>
  On the empty stream \<open>c\<close> is \<^verbatim>\<open>EOF\<close>: either it is the delimiter, or the first test
  of the body holds. The result carries the rest of the stream.
\<close>

definition EOF :: int where
  "EOF = - 1"

fun dstr_getdelim_loop ::
  "'m \<Rightarrow> ('m, char) darray \<Rightarrow> int \<Rightarrow> string
     \<Rightarrow> fault + (addr option \<times> 'm \<times> ('m, char) darray \<times> string)" where
  "dstr_getdelim_loop m allocated_dstr delim [] =
     (if EOF = delim then Inr (Some (d_handle allocated_dstr), m, allocated_dstr, [])
      else Inr (None, m, allocated_dstr, []))"
| "dstr_getdelim_loop m allocated_dstr delim (b # stream) =
     (let c = int (of_char b)
      in if c = delim then Inr (Some (d_handle allocated_dstr), m, allocated_dstr, stream)
         else if delim \<noteq> EOF \<and> c = EOF then Inr (None, m, allocated_dstr, stream)
         else (case dstr_concat_char m allocated_dstr (char_of c) of
                 Inl f \<Rightarrow> Inl f
               | Inr (None, m', d') \<Rightarrow> Inr (None, m', d', stream)
               | Inr (Some p, m', d') \<Rightarrow> dstr_getdelim_loop m' d' delim stream))"

definition dstr_getdelim ::
  "'m \<Rightarrow> ('m, char) darray \<Rightarrow> int \<Rightarrow> string
     \<Rightarrow> fault + (addr option \<times> 'm \<times> ('m, char) darray \<times> string)" where
  "dstr_getdelim m allocated_dstr delim stream =
     (case dstr_reassign_empty m allocated_dstr of
        Inl f \<Rightarrow> Inl f
      | Inr (None, m', d') \<Rightarrow> Inr (None, m', d', stream)
      | Inr (Some p, m', d') \<Rightarrow> dstr_getdelim_loop m' d' delim stream)"

definition dstr_getline ::
  "'m \<Rightarrow> ('m, char) darray \<Rightarrow> string
     \<Rightarrow> fault + (addr option \<times> 'm \<times> ('m, char) darray \<times> string)" where
  "dstr_getline m allocated_dstr stream = dstr_getdelim m allocated_dstr 10 stream"

subsection \<open>Trimming\<close>

text \<open>
  \<^verbatim>\<open>while (isspace(*tmp++)) ++n;\<close> and \<^verbatim>\<open>while (isspace(*tmp--)) n++;\<close>: the argument
  lists the cells in the order the cursor meets them, up to the edge of what the model
  knows of the memory.
\<close>

fun count_spaces :: "string \<Rightarrow> fault + nat" where
  "count_spaces [] = Inl OutOfBounds"
| "count_spaces (c # cs) =
     (if isspace c
      then (case count_spaces cs of Inl f \<Rightarrow> Inl f | Inr n \<Rightarrow> Inr (Suc n))
      else Inr 0)"

text \<open>
  The cursor of the second loop starts at \<^verbatim>\<open>dstr + dstr_length(dstr) - 1\<close> and moves
  down. Below the first cell lies the header of the block, whose last member is the
  pointer \<^verbatim>\<open>_mem_funcs.free_f\<close>. On the little-endian target the two bytes next to the
  data are the most significant bytes of that pointer, and they are zero for every
  address of the user space of an x86-64 process (and for a null pointer). The lower
  bytes of the pointer are not known to the model.
\<close>

definition header_top_bytes :: string where
  "header_top_bytes = [NUL, NUL]"

definition cells_downwards :: "string \<Rightarrow> nat \<Rightarrow> string" where
  "cells_downwards cells tmp =
     (if tmp < length cells then rev (take (Suc tmp) cells) @ header_top_bytes
      else if SIZE_MAX - tmp < length header_top_bytes
      then drop (SIZE_MAX - tmp) header_top_bytes
      else [])"

text \<open>
  \<^verbatim>\<open>n = 0; tmp = dstr; while (isspace(*tmp++)) ++n; da_remove_arr(dstr, 0, n);
    n = 0; tmp = dstr + dstr_length(dstr) - 1; while (isspace(*tmp--)) n++;
    da_remove_arr(dstr, dstr_length(dstr)-n, n); return dstr;\<close>
\<close>

definition dstr_trim :: "('m, char) darray \<Rightarrow> fault + ('m, char) darray" where
  "dstr_trim dstr =
     (case count_spaces (d_data dstr) of
        Inl f \<Rightarrow> Inl f
      | Inr n \<Rightarrow>
          (case da_remove_arr dstr 0 n of
             Inl f \<Rightarrow> Inl f
           | Inr d1 \<Rightarrow>
               (let tmp = size_t_sub (dstr_length d1) 1
                in case count_spaces (cells_downwards (d_data d1) tmp) of
                     Inl f \<Rightarrow> Inl f
                   | Inr n' \<Rightarrow> da_remove_arr d1 (size_t_sub (dstr_length d1) n') n')))"

section \<open>Sequences of calls\<close>

datatype 'a da_call =
    Resize nat | Resize_exact nat | Reserve nat
  | Push 'a | Pop | Insert nat 'a | Insert_arr nat "'a list" nat
  | Remove nat | Remove_arr nat nat | Concat "'a list" nat

text \<open>
  One call on the block the caller holds. After a \<^verbatim>\<open>NULL\<close> the caller still holds the
  old block, in the state the call left it.
\<close>

definition after :: "('m, 'a) ret \<Rightarrow> fault + ('m \<times> ('m, 'a) darray)" where
  "after r = (case r of Inl f \<Rightarrow> Inl f | Inr (p, m', d') \<Rightarrow> Inr (m', d'))"

fun da_exec :: "'m \<Rightarrow> ('m, 'a) darray \<Rightarrow> 'a da_call \<Rightarrow> fault + ('m \<times> ('m, 'a) darray)" where
  "da_exec m d (Resize n) = after (da_resize m d n)"
| "da_exec m d (Resize_exact n) = after (da_resize_exact m d n)"
| "da_exec m d (Reserve n) = after (da_reserve m d n)"
| "da_exec m d (Push v) = after (da_push m d v)"
| "da_exec m d Pop = (case da_pop d of Inl f \<Rightarrow> Inl f | Inr (v, d') \<Rightarrow> Inr (m, d'))"
| "da_exec m d (Insert i v) = after (da_insert m d i v)"
| "da_exec m d (Insert_arr i src n) = after (da_insert_arr m d i src n)"
| "da_exec m d (Remove i) = (case da_remove d i of Inl f \<Rightarrow> Inl f | Inr (v, d') \<Rightarrow> Inr (m, d'))"
| "da_exec m d (Remove_arr i n) =
     (case da_remove_arr d i n of Inl f \<Rightarrow> Inl f | Inr d' \<Rightarrow> Inr (m, d'))"
| "da_exec m d (Concat src n) = after (da_concat m d src n)"

datatype dstr_call =
    Core "char da_call"
  | Reassign_empty | Reassign_cstr string | Reassign_dstr string nat | Reassign_format string
  | Concat_char char | Concat_cstr string | Concat_dstr string nat | Concat_format string
  | Replace_all string string | Replace_all_case string string
  | Getdelim int string | Trim

text \<open>
  A dstring passed as a source is given by its cells and its length. \<open>None\<close> is a call
  that does not return.
\<close>

definition as_src :: "string \<Rightarrow> nat \<Rightarrow> (unit, char) darray" where
  "as_src cells len =
     \<lparr>d_handle = 0, d_elemsz = 1, d_length = len, d_capacity = length cells,
      d_mem_funcs = \<lparr>alloc_f = (\<lambda>m n. (None, m)), realloc_f = (\<lambda>m p n. (None, m)),
        free_f = (\<lambda>m p. m)\<rparr>,
      d_data = cells\<rparr>"

fun dstr_exec ::
  "'m \<Rightarrow> ('m, char) darray \<Rightarrow> dstr_call \<Rightarrow> (fault + ('m \<times> ('m, char) darray)) option" where
  "dstr_exec m d (Core c) = Some (da_exec m d c)"
| "dstr_exec m d Reassign_empty = Some (after (dstr_reassign_empty m d))"
| "dstr_exec m d (Reassign_cstr s) = Some (after (dstr_reassign_cstr m d s))"
| "dstr_exec m d (Reassign_dstr cells len) =
     Some (after (dstr_reassign_dstr m d (as_src cells len)))"
| "dstr_exec m d (Reassign_format s) = Some (after (dstr_reassign_format m d s))"
| "dstr_exec m d (Concat_char c) = Some (after (dstr_concat_char m d c))"
| "dstr_exec m d (Concat_cstr s) = Some (after (dstr_concat_cstr m d s))"
| "dstr_exec m d (Concat_dstr cells len) =
     Some (after (dstr_concat_dstr m d (as_src cells len)))"
| "dstr_exec m d (Concat_format s) = Some (after (dstr_concat_format m d s))"
| "dstr_exec m d (Replace_all s t) = map_option after (dstr_replace_all m d s t)"
| "dstr_exec m d (Replace_all_case s t) = map_option after (dstr_replace_all_case m d s t)"
| "dstr_exec m d (Getdelim delim stream) =
     Some (case dstr_getdelim m d delim stream of
             Inl f \<Rightarrow> Inl f | Inr (p, m', d', rest) \<Rightarrow> Inr (m', d'))"
| "dstr_exec m d Trim = Some (case dstr_trim d of Inl f \<Rightarrow> Inl f | Inr d' \<Rightarrow> Inr (m, d'))"

text \<open>The blocks a caller sees, one after each call, up to the first fault.\<close>

fun da_trace :: "'m \<Rightarrow> ('m, 'a) darray \<Rightarrow> 'a da_call list \<Rightarrow> ('m, 'a) darray list" where
  "da_trace m d [] = []"
| "da_trace m d (c # cs) =
     (case da_exec m d c of Inl f \<Rightarrow> [] | Inr (m', d') \<Rightarrow> d' # da_trace m' d' cs)"

fun dstr_trace :: "'m \<Rightarrow> ('m, char) darray \<Rightarrow> dstr_call list \<Rightarrow> ('m, char) darray list" where
  "dstr_trace m d [] = []"
| "dstr_trace m d (c # cs) =
     (case dstr_exec m d c of
        Some (Inr (m', d')) \<Rightarrow> d' # dstr_trace m' d' cs
      | _ \<Rightarrow> [])"

datatype alloc_call = Alloc | Alloc_exact | Alloc_custom | Alloc_exact_custom

fun da_create ::
  "alloc_call \<Rightarrow> ('m, 'a) da_mem_funcs \<Rightarrow> 'm \<Rightarrow> nat \<Rightarrow> nat
     \<Rightarrow> fault + (('m, 'a) darray option \<times> 'm)" where
  "da_create Alloc = da_alloc"
| "da_create Alloc_exact = da_alloc_exact"
| "da_create Alloc_custom = da_alloc_custom"
| "da_create Alloc_exact_custom = da_alloc_exact_custom"

text \<open>A program: one allocation, then calls on the instance it returned.\<close>

definition da_program ::
  "alloc_call \<Rightarrow> ('m, 'a) da_mem_funcs \<Rightarrow> 'm \<Rightarrow> nat \<Rightarrow> nat \<Rightarrow> 'a da_call list
     \<Rightarrow> ('m, 'a) darray list" where
  "da_program a mem_funcs m nelem elem_size calls =
     (case da_create a mem_funcs m nelem elem_size of
        Inr (Some d, m') \<Rightarrow> d # da_trace m' d calls
      | _ \<Rightarrow> [])"

definition dstr_program ::
  "('m, char) da_mem_funcs \<Rightarrow> 'm \<Rightarrow> string \<Rightarrow> dstr_call list \<Rightarrow> ('m, char) darray list" where
  "dstr_program mem_funcs m src calls =
     (case dstr_alloc_cstr mem_funcs m src of
        Inr (Some d, m') \<Rightarrow> d # dstr_trace m' d calls
      | _ \<Rightarrow> [])"

text \<open>Pushing a list of values one by one, and popping \<open>n\<close> times.\<close>

fun push_all :: "'m \<Rightarrow> ('m, 'a) darray \<Rightarrow> 'a list \<Rightarrow> ('m, 'a) ret" where
  "push_all m d [] = Inr (Some (d_handle d), m, d)"
| "push_all m d (v # vs) =
     (case da_push m d v of
        Inl f \<Rightarrow> Inl f
      | Inr (None, m', d') \<Rightarrow> Inr (None, m', d')
      | Inr (Some p, m', d') \<Rightarrow> push_all m' d' vs)"

fun pop_n :: "('m, 'a) darray \<Rightarrow> nat \<Rightarrow> fault + ('a list \<times> ('m, 'a) darray)" where
  "pop_n d 0 = Inr ([], d)"
| "pop_n d (Suc n) =
     (case da_pop d of
        Inl f \<Rightarrow> Inl f
      | Inr (v, d') \<Rightarrow>
          (case pop_n d' n of Inl f \<Rightarrow> Inl f | Inr (vs, d'') \<Rightarrow> Inr (v # vs, d'')))"

section \<open>Well-formed blocks\<close>

text \<open>
  A block is well formed when its length is within its capacity, it has no more cells
  than its capacity says, and it fits the address space.
\<close>

definition da_wf :: "('m, 'a) darray \<Rightarrow> bool" where
  "da_wf d \<longleftrightarrow> d_length d \<le> d_capacity d \<and> length (d_data d) \<le> d_capacity d
     \<and> length (d_data d) \<le> SIZE_MAX"


section \<open>Example allocators and blocks\<close>

text \<open>
  An allocator that always succeeds, moves the block on every reallocation and fills
  fresh cells with \<open>j\<close>; its state counts the blocks handed out. And one whose
  \<^verbatim>\<open>realloc_f\<close> always fails.
\<close>

definition ex_funcs :: "'a \<Rightarrow> (nat, 'a) da_mem_funcs" where
  "ex_funcs j =
     \<lparr>alloc_f = (\<lambda>m bytes. (Some (Suc m, \<lambda>i. j), Suc m)),
      realloc_f = (\<lambda>m p bytes. (Some (Suc m, \<lambda>i. j), Suc m)),
      free_f = (\<lambda>m p. m)\<rparr>"

definition oom_funcs :: "'a \<Rightarrow> (nat, 'a) da_mem_funcs" where
  "oom_funcs j =
     \<lparr>alloc_f = (\<lambda>m bytes. (Some (Suc m, \<lambda>i. j), Suc m)),
      realloc_f = (\<lambda>m p bytes. (None, m)),
      free_f = (\<lambda>m p. m)\<rparr>"

definition ex_ints :: "(nat, nat) da_mem_funcs \<Rightarrow> nat \<Rightarrow> nat list \<Rightarrow> (nat, nat) darray" where
  "ex_ints mf cap xs =
     \<lparr>d_handle = 100, d_elemsz = 4, d_length = length xs, d_capacity = cap,
      d_mem_funcs = mf, d_data = xs @ replicate (cap - length xs) 0\<rparr>"

definition ex_dstr :: "(nat, char) da_mem_funcs \<Rightarrow> nat \<Rightarrow> string \<Rightarrow> (nat, char) darray" where
  "ex_dstr mf cap s =
     \<lparr>d_handle = 100, d_elemsz = 1, d_length = length s + 1, d_capacity = cap,
      d_mem_funcs = mf, d_data = s @ NUL # replicate (cap - (length s + 1)) (CHR ''?'')\<rparr>"

section \<open>Capacity arithmetic\<close>

lemma bitlen_upper: "x < 2 ^ bitlen x"
proof (induction x rule: bitlen.induct)
  case (1 n)
  show ?case
  proof (cases "n = 0")
    case True
    then show ?thesis by (simp add: bitlen.simps)
  next
    case False
    with 1 have "n div 2 < 2 ^ bitlen (n div 2)" by simp
    then have "n < 2 * 2 ^ bitlen (n div 2)" by linarith
    with False show ?thesis by (subst bitlen.simps) simp
  qed
qed

lemma bitlen_lower: "0 < x \<Longrightarrow> 2 ^ (bitlen x - 1) \<le> x"
proof (induction x rule: bitlen.induct)
  case (1 n)
  show ?case
  proof (cases "n div 2 = 0")
    case True
    with 1 have "n = 1" by linarith
    then show ?thesis by (simp add: bitlen.simps)
  next
    case False
    with 1 have ih: "2 ^ (bitlen (n div 2) - 1) \<le> n div 2" by simp
    from False have pos: "0 < bitlen (n div 2)" by (subst bitlen.simps) simp
    have "bitlen n = Suc (bitlen (n div 2))" using 1(2) by (subst bitlen.simps) simp
    then have "(2::nat) ^ (bitlen n - 1) = 2 * 2 ^ (bitlen (n div 2) - 1)"
      using pos by (cases "bitlen (n div 2)") simp_all
    with ih show ?thesis by linarith
  qed
qed




lemma round53_cases:
  "round53 x = (x div 2 ^ (bitlen x - 53) + 1) * 2 ^ (bitlen x - 53) \<and>
     2 ^ (bitlen x - 53) \<le> 2 * (x mod 2 ^ (bitlen x - 53))
   \<or> round53 x = x div 2 ^ (bitlen x - 53) * 2 ^ (bitlen x - 53)"
proof (cases "2 ^ (bitlen x - 53) < 2 * (x mod 2 ^ (bitlen x - 53))
    \<or> (2 * (x mod 2 ^ (bitlen x - 53)) = 2 ^ (bitlen x - 53) \<and> odd (x div 2 ^ (bitlen x - 53)))")
  case True
  then have "round53 x = (x div 2 ^ (bitlen x - 53) + 1) * 2 ^ (bitlen x - 53)"
    unfolding round53_def Let_def by (simp only: if_True)
  moreover from True have "2 ^ (bitlen x - 53) \<le> 2 * (x mod 2 ^ (bitlen x - 53))"
    by (elim disjE conjE) (simp_all only: less_imp_le order_refl)
  ultimately show ?thesis by (intro disjI1 conjI)
next
  case False
  then have "round53 x = x div 2 ^ (bitlen x - 53) * 2 ^ (bitlen x - 53)"
    unfolding round53_def Let_def by (simp only: if_False)
  then show ?thesis by (rule disjI2)
qed

lemma round53_lower: "(x div 2 ^ (bitlen x - 53)) * 2 ^ (bitlen x - 53) \<le> round53 x"
proof -
  define P where "P = (2::nat) ^ (bitlen x - 53)"
  have up: "(x div P + 1) * P = x div P * P + P" by (simp only: distrib_right mult_1)
  from round53_cases[of x]
  have "round53 x = (x div P + 1) * P \<or> round53 x = x div P * P"
    unfolding P_def by blast
  then have "x div P * P \<le> round53 x" using up by linarith
  then show ?thesis by (simp only: P_def)
qed


lemma scale_le: assumes "53 < bitlen x" shows "2 ^ (bitlen x - 53) * 2 ^ 52 \<le> x"
proof -
  have "0 < x" using assms by (cases "x = 0") (simp_all add: bitlen.simps)
  from bitlen_lower[OF this] have "2 ^ (bitlen x - 1) \<le> x" .
  moreover have "bitlen x - 1 = (bitlen x - 53) + 52" using assms by simp
  ultimately have "(2::nat) ^ ((bitlen x - 53) + 52) \<le> x" by (simp only:)
  then show ?thesis by (simp only: power_add)
qed

lemma round53_rel: "(2 ^ 52 - 1) * x \<le> 2 ^ 52 * round53 x"
proof (cases "53 < bitlen x")
  case False
  then have "bitlen x - 53 = 0" by simp
  then have "round53 x = x" by (simp add: round53_def)
  then show ?thesis by simp
next
  case True
  define s where "s = bitlen x - 53"
  define q where "q = x div 2 ^ s"
  define r where "r = x mod 2 ^ s"
  have x: "x = q * 2 ^ s + r" unfolding q_def r_def by (rule div_mult_mod_eq[symmetric])
  have r: "r < 2 ^ s" by (simp add: r_def)
  have sc: "2 ^ s * 2 ^ 52 \<le> x" using scale_le[OF True] by (simp add: s_def)
  have lo: "q * 2 ^ s \<le> round53 x" using round53_lower[of x] by (simp add: s_def q_def)
  define K where "K = (2::nat) ^ 52"
  have Kpos: "0 < K" by (simp add: K_def)
  have "K * r \<le> K * 2 ^ s" using r by simp
  also have "\<dots> \<le> x" using sc by (simp add: mult.commute K_def)
  finally have rx: "K * r \<le> x" .
  have "(K - 1) * x + x = K * x" using Kpos by (cases K) simp_all
  also have "\<dots> = K * (q * 2 ^ s) + K * r" by (subst x) (simp only: distrib_left)
  also have "\<dots> \<le> K * round53 x + x" using lo rx by (intro add_mono mult_le_mono2)
  finally have "(K - 1) * x \<le> K * round53 x" by simp
  then show ?thesis by (simp only: K_def)
qed


lemma newcap_unfold:
  "\<not> n < 10 \<Longrightarrow> DA_NEW_CAPACITY_FROM_LENGTH n =
     (if round53 (round53 n * 5854679515581645) div 2 ^ 52 \<le> SIZE_MAX
      then Some (round53 (round53 n * 5854679515581645) div 2 ^ 52) else None)"
  by (simp add: DA_NEW_CAPACITY_FROM_LENGTH_def DA_CAPACITY_MIN_def size_t_of_double_def
      double_mul_def double_of_size_t_def DA_CAPACITY_FACTOR_def Let_def)

lemma newcap_ge:
  assumes "DA_NEW_CAPACITY_FROM_LENGTH n = Some c"
  shows "n \<le> c"
proof (cases "n < 10")
  case True
  with assms show ?thesis
    by (simp add: DA_NEW_CAPACITY_FROM_LENGTH_def DA_CAPACITY_MIN_def)
next
  case False
  define K where "K = (2::nat) ^ 52"
  define M where "M = (5854679515581645::nat)"
  define n' where "n' = round53 n"
  define p' where "p' = round53 (n' * M)"
  have c: "c = p' div K"
    using assms newcap_unfold[OF False]
    by (simp add: K_def M_def n'_def p'_def split: if_splits)
  have Kpos: "0 < K" by (simp add: K_def)
  have num: "K * K * K \<le> (K - 1) * (K - 1) * M" by (simp add: K_def M_def)
  have r1: "(K - 1) * n \<le> K * n'" unfolding K_def n'_def by (rule round53_rel)
  have r2: "(K - 1) * (n' * M) \<le> K * p'" unfolding K_def p'_def by (rule round53_rel)
  have "K * K * (K * n) = (K * K * K) * n" by (simp only: mult.assoc)
  also have "\<dots> \<le> ((K - 1) * (K - 1) * M) * n" using num by (rule mult_le_mono1)
  also have "\<dots> = (K - 1) * M * ((K - 1) * n)" by (simp only: mult_ac)
  also have "\<dots> \<le> (K - 1) * M * (K * n')" using r1 by (rule mult_le_mono2)
  also have "\<dots> = K * ((K - 1) * (n' * M))" by (simp only: mult_ac)
  also have "\<dots> \<le> K * (K * p')" using r2 by (rule mult_le_mono2)
  also have "\<dots> = K * K * p'" by (simp only: mult.assoc)
  finally have "K * K * (K * n) \<le> K * K * p'" .
  then have "K * n \<le> p'" using Kpos by simp
  then have "n \<le> p' div K" using Kpos by (simp add: less_eq_div_iff_mult_less_eq mult.commute)
  with c show ?thesis by simp
qed



section \<open>Size arithmetic\<close>

lemma size_t_le: "size_t x \<le> x"
  by (simp add: size_t_def)

lemma size_t_max: "size_t x \<le> SIZE_MAX"
proof -
  have "x mod 2 ^ 64 < (2::nat) ^ 64" by (rule mod_less_divisor) simp
  then show ?thesis by (simp add: size_t_def SIZE_MAX_def)
qed

lemma size_t_id: "x \<le> SIZE_MAX \<Longrightarrow> size_t x = x"
  by (simp add: size_t_def SIZE_MAX_def)

lemma size_t_int: "int (size_t x) = int x mod 2 ^ 64"
  by (simp add: size_t_def zmod_int)

lemma size_t_sub_int: "int (size_t_sub a b) = (int a - int b) mod 2 ^ 64"
  by (simp add: size_t_sub_def)

lemma size_t_sub_max: "size_t_sub a b \<le> SIZE_MAX"
proof -
  have "(int a - int b) mod 2 ^ 64 < 2 ^ 64" by (rule pos_mod_bound) simp
  then have "int (size_t_sub a b) < 2 ^ 64" by (simp only: size_t_sub_int)
  then show ?thesis by (simp add: SIZE_MAX_def)
qed

lemma size_t_sub_simple: "b \<le> a \<Longrightarrow> a \<le> SIZE_MAX \<Longrightarrow> size_t_sub a b = a - b"
proof -
  assume le: "b \<le> a" and m: "a \<le> SIZE_MAX"
  have "(int a - int b) mod 2 ^ 64 = int a - int b"
  proof (rule mod_pos_pos_trivial)
    show "0 \<le> int a - int b" using le by simp
    show "int a - int b < 2 ^ 64" using m by (simp add: SIZE_MAX_def)
  qed
  then have "size_t_sub a b = nat (int a - int b)" by (simp only: size_t_sub_def)
  also have "\<dots> = a - b" by simp
  finally show ?thesis .
qed

text \<open>Two values below \<open>2 ^ 64\<close> that agree modulo \<open>2 ^ 64\<close> are equal.\<close>

lemma wrap_unique:
  assumes "int a mod 2 ^ 64 = x mod 2 ^ 64" and "int b = x mod 2 ^ 64" and "a \<le> SIZE_MAX"
  shows "b = a"
proof -
  have "int a < 2 ^ 64" using assms(3) by (simp add: SIZE_MAX_def)
  then have "int a mod 2 ^ 64 = int a" by simp
  with assms(1,2) have "int b = int a" by simp
  then show ?thesis by simp
qed

lemma mod_sum2: "a + b = c \<Longrightarrow> (a mod m + b mod m) mod m = c mod (m::int)"
  by (simp only: mod_add_eq)

lemma mod_sumr: "a + b = c \<Longrightarrow> (a + b mod m) mod m = c mod (m::int)"
  by (simp only: mod_add_right_eq)

lemma mod_suml: "a + b = c \<Longrightarrow> (a mod m + b) mod m = c mod (m::int)"
  by (simp only: mod_add_left_eq)

lemma mod_diffl: "a - b = c \<Longrightarrow> (a mod m - b) mod m = c mod (m::int)"
  by (simp only: mod_diff_left_eq)

lemma wrap_insert_arr:
  assumes "size_t (i + k) + size_t_sub l i \<le> SIZE_MAX"
  shows "size_t (l + k) = size_t (i + k) + size_t_sub l i"
proof (rule wrap_unique[OF _ _ assms])
  show "int (size_t (l + k)) = (int l + int k) mod 2 ^ 64"
    by (simp only: size_t_int of_nat_add)
  have "int (size_t (i + k) + size_t_sub l i)
      = (int i + int k) mod 2 ^ 64 + (int l - int i) mod 2 ^ 64"
    by (simp only: size_t_int size_t_sub_int of_nat_add)
  moreover have "((int i + int k) mod 2 ^ 64 + (int l - int i) mod 2 ^ 64) mod 2 ^ 64
      = (int l + int k) mod 2 ^ 64"
    by (rule mod_sum2) simp
  ultimately show "int (size_t (i + k) + size_t_sub l i) mod 2 ^ 64 = (int l + int k) mod 2 ^ 64"
    by (simp only:)
qed

lemma wrap_remove_arr:
  assumes "i + size_t_sub (size_t_sub l i) k \<le> SIZE_MAX"
  shows "size_t_sub l k = i + size_t_sub (size_t_sub l i) k"
proof (rule wrap_unique[OF _ _ assms])
  show "int (size_t_sub l k) = (int l - int k) mod 2 ^ 64"
    by (simp only: size_t_sub_int)
  have "int (i + size_t_sub (size_t_sub l i) k)
      = int i + ((int l - int i) mod 2 ^ 64 - int k) mod 2 ^ 64"
    by (simp only: size_t_sub_int of_nat_add)
  moreover have "((int l - int i) mod 2 ^ 64 - int k) mod 2 ^ 64
      = (int l - int i - int k) mod 2 ^ 64"
    by (rule mod_diffl) simp
  moreover have "(int i + (int l - int i - int k) mod 2 ^ 64) mod 2 ^ 64
      = (int l - int k) mod 2 ^ 64"
    by (rule mod_sumr) simp
  ultimately show "int (i + size_t_sub (size_t_sub l i) k) mod 2 ^ 64
      = (int l - int k) mod 2 ^ 64"
    by (simp only:)
qed

lemma wrap_insert:
  assumes "i + 1 + size_t_sub l i \<le> SIZE_MAX"
  shows "size_t (l + 1) = i + 1 + size_t_sub l i"
proof (rule wrap_unique[OF _ _ assms])
  show "int (size_t (l + 1)) = (int l + 1) mod 2 ^ 64"
    by (simp only: size_t_int of_nat_add of_nat_1)
  have "int (i + 1 + size_t_sub l i) = int i + 1 + (int l - int i) mod 2 ^ 64"
    by (simp only: size_t_sub_int of_nat_add of_nat_1)
  moreover have "(int i + 1 + (int l - int i) mod 2 ^ 64) mod 2 ^ 64 = (int l + 1) mod 2 ^ 64"
    by (rule mod_sumr) simp
  ultimately show "int (i + 1 + size_t_sub l i) mod 2 ^ 64 = (int l + 1) mod 2 ^ 64"
    by (simp only:)
qed

lemma wrap_concat_cstr:
  assumes "size_t_sub l 1 + (k + 1) \<le> SIZE_MAX"
  shows "size_t (l + k) = size_t_sub l 1 + (k + 1)"
proof (rule wrap_unique[OF _ _ assms])
  show "int (size_t (l + k)) = (int l + int k) mod 2 ^ 64"
    by (simp only: size_t_int of_nat_add)
  have "int (size_t_sub l 1 + (k + 1)) = (int l - 1) mod 2 ^ 64 + (int k + 1)"
    by (simp only: size_t_sub_int of_nat_add of_nat_1)
  moreover have "((int l - 1) mod 2 ^ 64 + (int k + 1)) mod 2 ^ 64 = (int l + int k) mod 2 ^ 64"
    by (rule mod_suml) simp
  ultimately show "int (size_t_sub l 1 + (k + 1)) mod 2 ^ 64 = (int l + int k) mod 2 ^ 64"
    by (simp only:)
qed

lemma wrap_concat_dstr:
  assumes "size_t_sub l 1 + size_t (size_t_sub ls 1 + 1) \<le> SIZE_MAX"
  shows "size_t (l + size_t_sub ls 1) = size_t_sub l 1 + size_t (size_t_sub ls 1 + 1)"
proof (rule wrap_unique[OF _ _ assms])
  have "int (size_t (l + size_t_sub ls 1)) = (int l + (int ls - 1) mod 2 ^ 64) mod 2 ^ 64"
    by (simp only: size_t_int size_t_sub_int of_nat_add of_nat_1)
  also have "\<dots> = (int l + int ls - 1) mod 2 ^ 64"
    by (rule mod_sumr) simp
  finally show "int (size_t (l + size_t_sub ls 1)) = (int l + int ls - 1) mod 2 ^ 64" .
  have "int (size_t_sub l 1 + size_t (size_t_sub ls 1 + 1))
      = (int l - 1) mod 2 ^ 64 + ((int ls - 1) mod 2 ^ 64 + 1) mod 2 ^ 64"
    by (simp only: size_t_int size_t_sub_int of_nat_add of_nat_1)
  moreover have "((int ls - 1) mod 2 ^ 64 + 1) mod 2 ^ 64 = int ls mod 2 ^ 64"
    by (rule mod_suml) simp
  moreover have "((int l - 1) mod 2 ^ 64 + int ls mod 2 ^ 64) mod 2 ^ 64
      = (int l + int ls - 1) mod 2 ^ 64"
    by (rule mod_sum2) simp
  ultimately show "int (size_t_sub l 1 + size_t (size_t_sub ls 1 + 1)) mod 2 ^ 64
      = (int l + int ls - 1) mod 2 ^ 64"
    by (simp only:)
qed

section \<open>Memory and allocation\<close>

lemma length_mem_write: "i + length vs \<le> length xs \<Longrightarrow> length (mem_write xs i vs) = length xs"
  by (simp add: mem_write_def)

lemma memmove_length: "memmove xs dst src n = Inr ys \<Longrightarrow> length ys = length xs"
  by (auto simp: memmove_def length_mem_write split: if_splits)

lemma memcpy_length: "memcpy xs dst src n = Inr ys \<Longrightarrow> length ys = length xs"
  by (auto simp: memcpy_def length_mem_write split: if_splits)

lemma memmove_bounds:
  "memmove xs dst src n = Inr ys \<Longrightarrow> src + n \<le> length xs \<and> dst + n \<le> length xs"
  by (auto simp: memmove_def split: if_splits)

lemma memcpy_bounds:
  "memcpy xs dst src n = Inr ys \<Longrightarrow> dst + n \<le> length xs \<and> n \<le> length src"
  by (auto simp: memcpy_def split: if_splits)

lemma block_cells_le: "block_cells (size_t (sizeof_darray + c * e)) e \<le> c"
proof (cases "e = 0")
  case True
  then show ?thesis by (simp add: block_cells_def)
next
  case False
  have "size_t (sizeof_darray + c * e) - sizeof_darray \<le> c * e"
    using size_t_le[of "sizeof_darray + c * e"] by linarith
  then have "(size_t (sizeof_darray + c * e) - sizeof_darray) div e \<le> c * e div e"
    by (rule div_le_mono)
  with False show ?thesis by (simp add: block_cells_def)
qed

lemma block_cells_max: "block_cells (size_t x) e \<le> SIZE_MAX"
proof -
  have "block_cells (size_t x) e \<le> size_t x - sizeof_darray"
    unfolding block_cells_def by (rule div_le_dividend)
  also have "\<dots> \<le> size_t x" by simp
  also have "\<dots> \<le> SIZE_MAX" by (rule size_t_max)
  finally show ?thesis .
qed

lemma block_cells_exact:
  "0 < e \<Longrightarrow> sizeof_darray + c * e \<le> SIZE_MAX \<Longrightarrow> block_cells (size_t (sizeof_darray + c * e)) e = c"
  by (simp add: size_t_id block_cells_def)

lemma length_moved_data: "length (moved_data old junk k) = k"
  by (simp add: moved_data_def)

lemma length_fresh_data: "length (fresh_data junk k) = k"
  by (simp add: fresh_data_def)

lemma take_moved_data: "n \<le> k \<Longrightarrow> n \<le> length old \<Longrightarrow> take n (moved_data old junk k) = take n old"
  by (simp add: moved_data_def min_def)

text \<open>Creation yields a well-formed block.\<close>

lemma da_alloc_wf: "da_alloc mf m n e = Inr (Some d, m') \<Longrightarrow> da_wf d \<and> d_length d = n"
  by (auto simp: da_alloc_def da_wf_def length_fresh_data block_cells_le block_cells_max
      dest: newcap_ge split: option.splits prod.splits if_splits)

lemma da_alloc_custom_wf: "da_alloc_custom mf m n e = Inr (Some d, m') \<Longrightarrow> da_wf d \<and> d_length d = n"
  by (auto simp: da_alloc_custom_def da_wf_def length_fresh_data block_cells_le block_cells_max
      dest: newcap_ge split: option.splits prod.splits if_splits)

lemma da_alloc_exact_wf: "da_alloc_exact mf m n e = Inr (Some d, m') \<Longrightarrow> da_wf d \<and> d_length d = n"
  by (auto simp: da_alloc_exact_def da_wf_def length_fresh_data block_cells_le block_cells_max
      split: option.splits prod.splits if_splits)

lemma da_alloc_exact_custom_wf:
  "da_alloc_exact_custom mf m n e = Inr (Some d, m') \<Longrightarrow> da_wf d \<and> d_length d = n"
  by (auto simp: da_alloc_exact_custom_def da_wf_def length_fresh_data block_cells_le block_cells_max
      split: option.splits prod.splits if_splits)

section \<open>Reallocation\<close>

text \<open>What a successful reallocating call leaves.\<close>

lemma da_resize_Some:
  assumes "da_resize m d n = Inr (Some p, m', d')"
  obtains c junk where "DA_NEW_CAPACITY_FROM_LENGTH n = Some c"
    and "realloc_f (d_mem_funcs d) m (d_handle d) (size_t (sizeof_darray + c * d_elemsz d))
          = (Some (p, junk), m')"
    and "d' = d\<lparr>d_handle := p,
            d_data := moved_data (d_data d) junk
              (block_cells (size_t (sizeof_darray + c * d_elemsz d)) (d_elemsz d)),
            d_length := n, d_capacity := c\<rparr>"
  using assms
  by (auto simp: da_resize_def da_sizeof_elem_def realloc_block_def Let_def
      split: option.splits prod.splits if_splits)

lemma da_resize_exact_Some:
  assumes "da_resize_exact m d n = Inr (Some p, m', d')"
  obtains junk where
    "realloc_f (d_mem_funcs d) m (d_handle d) (size_t (sizeof_darray + n * d_elemsz d))
          = (Some (p, junk), m')"
    and "d' = d\<lparr>d_handle := p,
            d_data := moved_data (d_data d) junk
              (block_cells (size_t (sizeof_darray + n * d_elemsz d)) (d_elemsz d)),
            d_length := n, d_capacity := n\<rparr>"
  using assms
  by (auto simp: da_resize_exact_def da_sizeof_elem_def realloc_block_def Let_def
      split: option.splits prod.splits if_splits)

lemma da_resize_None: "da_resize m d n = Inr (None, m', d') \<Longrightarrow> d' = d"
  by (auto simp: da_resize_def Let_def split: option.splits prod.splits if_splits)

lemma da_resize_exact_None: "da_resize_exact m d n = Inr (None, m', d') \<Longrightarrow> d' = d"
  by (auto simp: da_resize_exact_def Let_def split: option.splits prod.splits if_splits)

lemma da_reserve_same:
  "size_t (d_length d + n) \<le> d_capacity d \<Longrightarrow> da_reserve m d n = Inr (Some (d_handle d), m, d)"
  by (simp add: da_reserve_def da_length_def da_capacity_def)

lemma da_reserve_grow:
  "d_capacity d < size_t (d_length d + n) \<Longrightarrow>
   DA_NEW_CAPACITY_FROM_LENGTH (size_t (d_length d + n)) = Some c \<Longrightarrow>
   realloc_f (d_mem_funcs d) m (d_handle d) (size_t (sizeof_darray + c * d_elemsz d)) = (r, m') \<Longrightarrow>
   da_reserve m d n =
     (case r of None \<Rightarrow> Inr (None, m', d)
      | Some (p, junk) \<Rightarrow>
          if size_t (sizeof_darray + c * d_elemsz d) < sizeof_darray then Inl OutOfBounds
          else Inr (Some p, m', d\<lparr>d_handle := p,
            d_data := moved_data (d_data d) junk
              (block_cells (size_t (sizeof_darray + c * d_elemsz d)) (d_elemsz d)),
            d_capacity := c\<rparr>))"
  by (simp add: da_reserve_def da_length_def da_capacity_def da_sizeof_elem_def
      realloc_block_def Let_def split: option.splits)

lemma da_reserve_Some:
  assumes "da_reserve m d n = Inr (Some p, m', d')"
  obtains (same) "size_t (d_length d + n) \<le> d_capacity d" "p = d_handle d" "m' = m" "d' = d"
  | (moved) c junk where "d_capacity d < size_t (d_length d + n)"
      "DA_NEW_CAPACITY_FROM_LENGTH (size_t (d_length d + n)) = Some c"
      "realloc_f (d_mem_funcs d) m (d_handle d) (size_t (sizeof_darray + c * d_elemsz d))
          = (Some (p, junk), m')"
      "d' = d\<lparr>d_handle := p,
            d_data := moved_data (d_data d) junk
              (block_cells (size_t (sizeof_darray + c * d_elemsz d)) (d_elemsz d)),
            d_capacity := c\<rparr>"
proof (cases "size_t (d_length d + n) \<le> d_capacity d")
  case True
  have "Inr (Some p, m', d') = (Inr (Some (d_handle d), m, d) :: ('a, 'b) ret)"
    using assms da_reserve_same[OF True, of m] by (simp only:)
  then have "p = d_handle d" "m' = m" "d' = d" by simp_all
  with True show ?thesis by (rule same)
next
  case False
  then have lt: "d_capacity d < size_t (d_length d + n)" by simp
  show ?thesis
  proof (cases "DA_NEW_CAPACITY_FROM_LENGTH (size_t (d_length d + n))")
    case None
    with assms lt show ?thesis
      by (simp add: da_reserve_def da_length_def da_capacity_def)
  next
    case (Some c)
    obtain r m1 where re:
      "realloc_f (d_mem_funcs d) m (d_handle d) (size_t (sizeof_darray + c * d_elemsz d)) = (r, m1)"
      by (cases "realloc_f (d_mem_funcs d) m (d_handle d) (size_t (sizeof_darray + c * d_elemsz d))")
    from assms da_reserve_grow[OF lt Some re] obtain junk where
      "r = Some (p, junk)" "m1 = m'"
      "d' = d\<lparr>d_handle := p,
            d_data := moved_data (d_data d) junk
              (block_cells (size_t (sizeof_darray + c * d_elemsz d)) (d_elemsz d)),
            d_capacity := c\<rparr>"
      by (cases r) (auto split: if_splits)
    then have "realloc_f (d_mem_funcs d) m (d_handle d) (size_t (sizeof_darray + c * d_elemsz d))
          = (Some (p, junk), m')"
      "d' = d\<lparr>d_handle := p,
            d_data := moved_data (d_data d) junk
              (block_cells (size_t (sizeof_darray + c * d_elemsz d)) (d_elemsz d)),
            d_capacity := c\<rparr>"
      using re by simp_all
    with lt Some show ?thesis by (rule moved)
  qed
qed

lemma da_reserve_None: "da_reserve m d n = Inr (None, m', d') \<Longrightarrow> d' = d"
proof (cases "size_t (d_length d + n) \<le> d_capacity d")
  case True
  assume "da_reserve m d n = Inr (None, m', d')"
  with da_reserve_same[OF True, of m] show ?thesis by simp
next
  case False
  assume a: "da_reserve m d n = Inr (None, m', d')"
  from False have lt: "d_capacity d < size_t (d_length d + n)" by simp
  show ?thesis
  proof (cases "DA_NEW_CAPACITY_FROM_LENGTH (size_t (d_length d + n))")
    case None
    with a lt show ?thesis
      by (simp add: da_reserve_def da_length_def da_capacity_def)
  next
    case (Some c)
    obtain r m1 where re:
      "realloc_f (d_mem_funcs d) m (d_handle d) (size_t (sizeof_darray + c * d_elemsz d)) = (r, m1)"
      by (cases "realloc_f (d_mem_funcs d) m (d_handle d) (size_t (sizeof_darray + c * d_elemsz d))")
    from a da_reserve_grow[OF lt Some re] show ?thesis
      by (cases r) (auto split: if_splits)
  qed
qed

lemma da_resize_wf: "da_resize m d n = Inr (p, m', d') \<Longrightarrow> da_wf d \<Longrightarrow> da_wf d'"
proof (cases p)
  case None
  assume "da_resize m d n = Inr (p, m', d')" "da_wf d"
  with None show ?thesis by (auto dest: da_resize_None)
next
  case (Some q)
  assume r: "da_resize m d n = Inr (p, m', d')"
  from r Some show ?thesis
    by (auto elim!: da_resize_Some simp: da_wf_def length_moved_data block_cells_le block_cells_max
        dest: newcap_ge)
qed

lemma da_resize_exact_wf: "da_resize_exact m d n = Inr (p, m', d') \<Longrightarrow> da_wf d \<Longrightarrow> da_wf d'"
proof (cases p)
  case None
  assume "da_resize_exact m d n = Inr (p, m', d')" "da_wf d"
  with None show ?thesis by (auto dest: da_resize_exact_None)
next
  case (Some q)
  assume r: "da_resize_exact m d n = Inr (p, m', d')"
  from r Some show ?thesis
    by (auto elim!: da_resize_exact_Some
        simp: da_wf_def length_moved_data block_cells_le block_cells_max)
qed

lemma da_reserve_length: "da_reserve m d n = Inr (p, m', d') \<Longrightarrow> d_length d' = d_length d"
  by (cases p) (auto dest: da_reserve_None elim!: da_reserve_Some)

lemma da_reserve_wf:
  assumes r: "da_reserve m d n = Inr (p, m', d')" and wf: "da_wf d"
  shows "da_wf d'"
proof (cases p)
  case None
  with r wf show ?thesis by (auto dest: da_reserve_None)
next
  case (Some q)
  with r have "da_reserve m d n = Inr (Some q, m', d')" by simp
  then show ?thesis
  proof (cases rule: da_reserve_Some)
    case same
    with wf show ?thesis by simp
  next
    case (moved c junk)
    from newcap_ge[OF moved(2)] moved(1) wf have "d_length d \<le> c"
      by (simp add: da_wf_def)
    with moved(4) show ?thesis
      by (simp add: da_wf_def length_moved_data block_cells_le block_cells_max)
  qed
qed

section \<open>C2: capacity of a new instance\<close>

text \<open>Unfolding the capacity computation at a numeral.\<close>

lemmas newcap_eval = DA_NEW_CAPACITY_FROM_LENGTH_def DA_CAPACITY_MIN_def size_t_of_double_def
  double_mul_def double_of_size_t_def DA_CAPACITY_FACTOR_def round53_def bitlen.simps
  SIZE_MAX_def Let_def





section \<open>C3: capacity after a resize\<close>

text \<open>Unfolding the operations on the example blocks.\<close>

lemmas ex_eval = ex_ints_def ex_funcs_def oom_funcs_def da_length_def da_capacity_def
  da_sizeof_elem_def size_t_def size_t_sub_def sizeof_darray_def block_cells_def
  realloc_block_def moved_data_def fresh_data_def




section \<open>C5 and C6: failure and reservation\<close>

text \<open>
  C5: when the reallocation fails, \<^verbatim>\<open>da_resize\<close>, \<^verbatim>\<open>da_resize_exact\<close> and
  \<^verbatim>\<open>da_reserve\<close> return \<^verbatim>\<open>NULL\<close> and the block is as before the call: contents,
  length and capacity. And whenever one of them returns \<^verbatim>\<open>NULL\<close>, the block is unchanged.
\<close>

theorem C5_failed_realloc_unchanged:
  "(DA_NEW_CAPACITY_FROM_LENGTH n = Some c \<longrightarrow>
      realloc_f (d_mem_funcs d) m (d_handle d) (size_t (sizeof_darray + c * d_elemsz d)) = (None, m')
      \<longrightarrow> da_resize m d n = Inr (None, m', d))
   \<and> (realloc_f (d_mem_funcs d) m (d_handle d) (size_t (sizeof_darray + n * d_elemsz d)) = (None, m')
      \<longrightarrow> da_resize_exact m d n = Inr (None, m', d))
   \<and> (d_capacity d < size_t (d_length d + n) \<longrightarrow>
      DA_NEW_CAPACITY_FROM_LENGTH (size_t (d_length d + n)) = Some c \<longrightarrow>
      realloc_f (d_mem_funcs d) m (d_handle d) (size_t (sizeof_darray + c * d_elemsz d)) = (None, m')
      \<longrightarrow> da_reserve m d n = Inr (None, m', d))
   \<and> (da_resize m d n = Inr (None, m', d') \<longrightarrow> d' = d)
   \<and> (da_resize_exact m d n = Inr (None, m', d') \<longrightarrow> d' = d)
   \<and> (da_reserve m d n = Inr (None, m', d') \<longrightarrow> d' = d)"
proof (intro conjI impI)
  assume "DA_NEW_CAPACITY_FROM_LENGTH n = Some c"
    "realloc_f (d_mem_funcs d) m (d_handle d) (size_t (sizeof_darray + c * d_elemsz d)) = (None, m')"
  then show "da_resize m d n = Inr (None, m', d)"
    by (simp add: da_resize_def da_sizeof_elem_def)
next
  assume "realloc_f (d_mem_funcs d) m (d_handle d) (size_t (sizeof_darray + n * d_elemsz d)) = (None, m')"
  then show "da_resize_exact m d n = Inr (None, m', d)"
    by (simp add: da_resize_exact_def da_sizeof_elem_def)
next
  assume "d_capacity d < size_t (d_length d + n)"
    "DA_NEW_CAPACITY_FROM_LENGTH (size_t (d_length d + n)) = Some c"
    "realloc_f (d_mem_funcs d) m (d_handle d) (size_t (sizeof_darray + c * d_elemsz d)) = (None, m')"
  from da_reserve_grow[OF this] show "da_reserve m d n = Inr (None, m', d)" by simp
next
  assume "da_resize m d n = Inr (None, m', d')"
  then show "d' = d" by (rule da_resize_None)
next
  assume "da_resize_exact m d n = Inr (None, m', d')"
  then show "d' = d" by (rule da_resize_exact_None)
next
  assume "da_reserve m d n = Inr (None, m', d')"
  then show "d' = d" by (rule da_reserve_None)
qed

text \<open>
  Witness for C5: three elements in capacity 10, on an allocator whose \<^verbatim>\<open>realloc_f\<close>
  fails; the three calls ask for 12 elements, exactly 12 elements, and room for 20 more.
\<close>

theorem C5_failed_realloc_unchanged_witness:
  "da_resize 0 (ex_ints (oom_funcs 7) 10 [4, 5, 6]) 12 = Inr (None, 0, ex_ints (oom_funcs 7) 10 [4, 5, 6])
   \<and> da_resize_exact 0 (ex_ints (oom_funcs 7) 10 [4, 5, 6]) 12
       = Inr (None, 0, ex_ints (oom_funcs 7) 10 [4, 5, 6])
   \<and> da_reserve 0 (ex_ints (oom_funcs 7) 10 [4, 5, 6]) 20
       = Inr (None, 0, ex_ints (oom_funcs 7) 10 [4, 5, 6])"
proof -
  let ?d = "ex_ints (oom_funcs 7) 10 [4, 5, 6]"
  have f: "\<And>b. realloc_f (d_mem_funcs ?d) 0 (d_handle ?d) b = (None, 0)"
    by (simp add: ex_eval)
  have c12: "DA_NEW_CAPACITY_FROM_LENGTH 12 = Some 15" by (simp add: newcap_eval)
  have lt: "d_capacity ?d < size_t (d_length ?d + 20)" by (simp add: ex_eval)
  have c23: "DA_NEW_CAPACITY_FROM_LENGTH (size_t (d_length ?d + 20)) = Some 29"
    by (simp add: newcap_eval ex_eval)
  have 1: "da_resize 0 ?d 12 = Inr (None, 0, ?d)"
    using C5_failed_realloc_unchanged[of 12 15 ?d 0 0] c12 f by blast
  have 2: "da_resize_exact 0 ?d 12 = Inr (None, 0, ?d)"
    using C5_failed_realloc_unchanged[of 12 15 ?d 0 0] f by blast
  have 3: "da_reserve 0 ?d 20 = Inr (None, 0, ?d)"
    using C5_failed_realloc_unchanged[of 20 29 ?d 0 0] c23 lt f by blast
  from 1 2 3 show ?thesis by (intro conjI)
qed





section \<open>C10: what a resize keeps\<close>

text \<open>
  C10 as stated fails: the byte size \<^verbatim>\<open>sizeof(struct _darray) + nelem * elemsz\<close> is
  computed in \<^verbatim>\<open>size_t\<close> and wraps. For elements of four bytes and
  \<open>nelem = 2 ^ 62\<close> it is 48, the header alone: \<^verbatim>\<open>realloc_f\<close> succeeds, the call returns
  the handle, and none of the three stored elements is left.
\<close>

theorem C10_counterexample:
  "(case da_resize_exact 0 (ex_ints (ex_funcs 7) 10 [4, 5, 6]) (2 ^ 62) of
      Inr (Some p, m', d') \<Rightarrow>
        take (min (da_length (ex_ints (ex_funcs 7) 10 [4, 5, 6])) (2 ^ 62)) (d_data d')
          \<noteq> take (min (da_length (ex_ints (ex_funcs 7) 10 [4, 5, 6])) (2 ^ 62))
                (d_data (ex_ints (ex_funcs 7) 10 [4, 5, 6]))
    | _ \<Rightarrow> False)"
  by (simp add: da_resize_exact_def ex_eval)

text \<open>
  C10, amended: provided the byte size of the new block does not exceed \<^verbatim>\<open>SIZE_MAX\<close>,
  a successful \<^verbatim>\<open>da_resize(h, n)\<close> or \<^verbatim>\<open>da_resize_exact(h, n)\<close> keeps the elements below
  \<open>min (old length) n\<close>, the element size and the allocation functions; the length becomes
  \<open>n\<close> and the capacity the one computed from \<open>n\<close>, or \<open>n\<close> itself.
\<close>

theorem C10_resize_frame:
  assumes "0 < d_elemsz d" and "da_length d \<le> length (d_data d)"
  shows "(da_resize m d n = Inr (Some p, m', d') \<longrightarrow>
            DA_NEW_CAPACITY_FROM_LENGTH n = Some c \<longrightarrow>
            sizeof_darray + c * d_elemsz d \<le> SIZE_MAX \<longrightarrow>
            take (min (da_length d) n) (d_data d') = take (min (da_length d) n) (d_data d)
            \<and> d_elemsz d' = d_elemsz d \<and> d_mem_funcs d' = d_mem_funcs d
            \<and> da_length d' = n \<and> da_capacity d' = c)
    \<and> (da_resize_exact m d n = Inr (Some p, m', d') \<longrightarrow>
            sizeof_darray + n * d_elemsz d \<le> SIZE_MAX \<longrightarrow>
            take (min (da_length d) n) (d_data d') = take (min (da_length d) n) (d_data d)
            \<and> d_elemsz d' = d_elemsz d \<and> d_mem_funcs d' = d_mem_funcs d
            \<and> da_length d' = n \<and> da_capacity d' = n)"
proof (intro conjI impI)
  assume r: "da_resize m d n = Inr (Some p, m', d')"
    and c: "DA_NEW_CAPACITY_FROM_LENGTH n = Some c"
    and fit: "sizeof_darray + c * d_elemsz d \<le> SIZE_MAX"
  from r c obtain junk where d': "d' = d\<lparr>d_handle := p,
      d_data := moved_data (d_data d) junk
        (block_cells (size_t (sizeof_darray + c * d_elemsz d)) (d_elemsz d)),
      d_length := n, d_capacity := c\<rparr>"
    by (auto elim!: da_resize_Some)
  have cells: "block_cells (size_t (sizeof_darray + c * d_elemsz d)) (d_elemsz d) = c"
    using assms(1) fit by (rule block_cells_exact)
  have "min (da_length d) n \<le> c" using newcap_ge[OF c] by simp
  moreover have "min (da_length d) n \<le> length (d_data d)" using assms(2) by simp
  ultimately have "take (min (da_length d) n) (moved_data (d_data d) junk c)
      = take (min (da_length d) n) (d_data d)"
    by (rule take_moved_data)
  with d' cells show "take (min (da_length d) n) (d_data d') = take (min (da_length d) n) (d_data d)"
    by simp
  from d' show "d_elemsz d' = d_elemsz d" "d_mem_funcs d' = d_mem_funcs d"
    "da_length d' = n" "da_capacity d' = c"
    by (simp_all add: da_length_def da_capacity_def)
next
  assume r: "da_resize_exact m d n = Inr (Some p, m', d')"
    and fit: "sizeof_darray + n * d_elemsz d \<le> SIZE_MAX"
  from r obtain junk where d': "d' = d\<lparr>d_handle := p,
      d_data := moved_data (d_data d) junk
        (block_cells (size_t (sizeof_darray + n * d_elemsz d)) (d_elemsz d)),
      d_length := n, d_capacity := n\<rparr>"
    by (auto elim!: da_resize_exact_Some)
  have cells: "block_cells (size_t (sizeof_darray + n * d_elemsz d)) (d_elemsz d) = n"
    using assms(1) fit by (rule block_cells_exact)
  have "min (da_length d) n \<le> n" by simp
  moreover have "min (da_length d) n \<le> length (d_data d)" using assms(2) by simp
  ultimately have "take (min (da_length d) n) (moved_data (d_data d) junk n)
      = take (min (da_length d) n) (d_data d)"
    by (rule take_moved_data)
  with d' cells show "take (min (da_length d) n) (d_data d') = take (min (da_length d) n) (d_data d)"
    by simp
  from d' show "d_elemsz d' = d_elemsz d" "d_mem_funcs d' = d_mem_funcs d"
    "da_length d' = n" "da_capacity d' = n"
    by (simp_all add: da_length_def da_capacity_def)
qed

text \<open>
  Witness for C10: three elements of four bytes in capacity 10, grown to 12 and shrunk
  to exactly 2.
\<close>

theorem C10_resize_frame_witness:
  "0 < d_elemsz (ex_ints (ex_funcs 7) 10 [4, 5, 6]) \<and>
   da_length (ex_ints (ex_funcs 7) 10 [4, 5, 6]) \<le> length (d_data (ex_ints (ex_funcs 7) 10 [4, 5, 6])) \<and>
   (case da_resize 0 (ex_ints (ex_funcs 7) 10 [4, 5, 6]) 12 of
      Inr (Some p, m', d') \<Rightarrow> take 3 (d_data d') = [4, 5, 6] \<and> d_elemsz d' = 4
        \<and> da_length d' = 12 \<and> da_capacity d' = 15
    | _ \<Rightarrow> False) \<and>
   (case da_resize_exact 0 (ex_ints (ex_funcs 7) 10 [4, 5, 6]) 2 of
      Inr (Some p, m', d') \<Rightarrow> take 2 (d_data d') = [4, 5] \<and> d_elemsz d' = 4
        \<and> da_length d' = 2 \<and> da_capacity d' = 2
    | _ \<Rightarrow> False)"
proof -
  let ?d = "ex_ints (ex_funcs 7) 10 [4, 5, 6]"
  have h1: "0 < d_elemsz ?d" by (simp add: ex_eval)
  have h2: "da_length ?d \<le> length (d_data ?d)" by (simp add: ex_eval)
  have c: "DA_NEW_CAPACITY_FROM_LENGTH 12 = Some 15" by (simp add: newcap_eval)
  have fit: "sizeof_darray + 15 * d_elemsz ?d \<le> SIZE_MAX" by (simp add: ex_eval SIZE_MAX_def)
  have fit2: "sizeof_darray + 2 * d_elemsz ?d \<le> SIZE_MAX" by (simp add: ex_eval SIZE_MAX_def)
  obtain p m' d' where r: "da_resize 0 ?d 12 = Inr (Some p, m', d')"
    by (simp add: da_resize_def newcap_eval ex_eval)
  obtain q m2 d2 where r2: "da_resize_exact 0 ?d 2 = Inr (Some q, m2, d2)"
    by (simp add: da_resize_exact_def ex_eval)
  have e: "d_elemsz ?d = 4" by (simp add: ex_eval)
  have m12: "min (da_length ?d) 12 = 3" by (simp add: ex_eval)
  have m2: "min (da_length ?d) 2 = 2" by (simp add: ex_eval)
  have t3: "take 3 (d_data ?d) = [4, 5, 6]" by (simp add: ex_eval)
  have t2: "take 2 (d_data ?d) = [4, 5]" by (simp add: ex_eval)
  from C10_resize_frame[OF h1 h2, of 0 12 p m' d' 15] r c fit
  have "take (min (da_length ?d) 12) (d_data d') = take (min (da_length ?d) 12) (d_data ?d)
      \<and> d_elemsz d' = d_elemsz ?d \<and> d_mem_funcs d' = d_mem_funcs ?d
      \<and> da_length d' = 12 \<and> da_capacity d' = 15"
    by blast
  then have a: "take 3 (d_data d') = [4, 5, 6] \<and> d_elemsz d' = 4 \<and> da_length d' = 12
      \<and> da_capacity d' = 15"
    by (simp only: m12 t3 e)
  from C10_resize_frame[OF h1 h2, of 0 2 q m2 d2 0] r2 fit2
  have "take (min (da_length ?d) 2) (d_data d2) = take (min (da_length ?d) 2) (d_data ?d)
      \<and> d_elemsz d2 = d_elemsz ?d \<and> d_mem_funcs d2 = d_mem_funcs ?d
      \<and> da_length d2 = 2 \<and> da_capacity d2 = 2"
    by blast
  then have b: "take 2 (d_data d2) = [4, 5] \<and> d_elemsz d2 = 4 \<and> da_length d2 = 2
      \<and> da_capacity d2 = 2"
    by (simp only: m2 t2 e)
  from a b h1 h2 show ?thesis by (simp only: r r2 sum.case prod.case option.case simp_thms)
qed

section \<open>C7: push and pop\<close>

lemma store_back_Some:
  assumes "store_back m d v = Inr (p, m', d')" and "length (d_data d) \<le> SIZE_MAX"
  shows "p = Some (d_handle d) \<and> m' = m \<and> d_length d < length (d_data d)
    \<and> d' = d\<lparr>d_data := (d_data d)[d_length d := v], d_length := d_length d + 1\<rparr>"
proof -
  from assms(1) have lt: "d_length d < length (d_data d)"
    by (simp add: store_back_def da_length_def split: if_splits)
  with assms(2) have "d_length d + 1 \<le> SIZE_MAX" by simp
  then have "size_t (d_length d + 1) = d_length d + 1" by (rule size_t_id)
  with assms(1) lt show ?thesis by (simp add: store_back_def da_length_def)
qed

lemma store_back_ok:
  assumes "store_back m d v = Inr (p, m', d')" and "da_wf d" and "d_length d \<le> length (d_data d)"
  shows "da_wf d' \<and> d_length d' = d_length d + 1 \<and> d_length d' \<le> length (d_data d')
    \<and> take (d_length d') (d_data d') = take (d_length d) (d_data d) @ [v]
    \<and> p = Some (d_handle d') \<and> d_mem_funcs d' = d_mem_funcs d \<and> d_elemsz d' = d_elemsz d"
proof -
  from assms(2) have "length (d_data d) \<le> SIZE_MAX" by (simp add: da_wf_def)
  from store_back_Some[OF assms(1) this]
  have lt: "d_length d < length (d_data d)"
    and d': "d' = d\<lparr>d_data := (d_data d)[d_length d := v], d_length := d_length d + 1\<rparr>"
    and p: "p = Some (d_handle d)"
    by simp_all
  have "take (Suc (d_length d)) ((d_data d)[d_length d := v]) = take (d_length d) (d_data d) @ [v]"
    using lt by (simp add: take_Suc_conv_app_nth)
  with d' lt p assms(2) show ?thesis by (simp add: da_wf_def)
qed

lemma da_reserve_ok:
  assumes r: "da_reserve m d n = Inr (Some p, m', d')"
    and wf: "da_wf d" and len: "d_length d \<le> length (d_data d)"
    and room: "d_length d \<le> length (d_data d')"
  shows "da_wf d' \<and> d_length d' = d_length d
    \<and> take (d_length d) (d_data d') = take (d_length d) (d_data d)
    \<and> p = d_handle d' \<and> d_mem_funcs d' = d_mem_funcs d \<and> d_elemsz d' = d_elemsz d"
proof -
  have wf': "da_wf d'" using r wf by (rule da_reserve_wf)
  from r show ?thesis
  proof (cases rule: da_reserve_Some)
    case same
    with wf' show ?thesis by simp
  next
    case (moved c junk)
    let ?k = "block_cells (size_t (sizeof_darray + c * d_elemsz d)) (d_elemsz d)"
    from moved(4) room have "d_length d \<le> ?k" by (simp add: length_moved_data)
    from take_moved_data[OF this len]
    have "take (d_length d) (moved_data (d_data d) junk ?k) = take (d_length d) (d_data d)" .
    with moved(4) wf' show ?thesis by simp
  qed
qed

lemma da_push_ok:
  assumes r: "da_push m d v = Inr (Some p, m', d')"
    and wf: "da_wf d" and len: "d_length d \<le> length (d_data d)"
  shows "da_wf d' \<and> d_length d' = d_length d + 1 \<and> d_length d' \<le> length (d_data d')
    \<and> take (d_length d') (d_data d') = take (d_length d) (d_data d) @ [v]
    \<and> p = d_handle d' \<and> d_mem_funcs d' = d_mem_funcs d \<and> d_elemsz d' = d_elemsz d"
proof (cases "d_length d = d_capacity d")
  case False
  with r have "store_back m d v = Inr (Some p, m', d')"
    by (simp add: da_push_def da_length_def da_capacity_def)
  from store_back_ok[OF this wf len] show ?thesis by auto
next
  case True
  with r obtain q m1 d1 where res: "da_reserve m d 1 = Inr (Some q, m1, d1)"
    and st: "store_back m1 d1 v = Inr (Some p, m', d')"
    by (auto simp: da_push_def da_length_def da_capacity_def
        split: sum.splits prod.splits option.splits)
  have l1: "d_length d1 = d_length d" using res by (rule da_reserve_length)
  have wf1: "da_wf d1" using res wf by (rule da_reserve_wf)
  then have "length (d_data d1) \<le> SIZE_MAX" by (simp add: da_wf_def)
  from store_back_Some[OF st this] l1 have room: "d_length d \<le> length (d_data d1)" by simp
  from da_reserve_ok[OF res wf len room]
  have keep: "take (d_length d) (d_data d1) = take (d_length d) (d_data d)"
    and mf: "d_mem_funcs d1 = d_mem_funcs d" "d_elemsz d1 = d_elemsz d"
    by auto
  from room l1 have "d_length d1 \<le> length (d_data d1)" by simp
  from store_back_ok[OF st wf1 this] l1 keep mf show ?thesis by auto
qed

lemma push_all_ok:
  assumes "push_all m d vs = Inr (Some p, m', d')"
    and "da_wf d" and "d_length d \<le> length (d_data d)"
  shows "da_wf d' \<and> d_length d' = d_length d + length vs \<and> d_length d' \<le> length (d_data d')
    \<and> take (d_length d') (d_data d') = take (d_length d) (d_data d) @ vs"
  using assms
proof (induction vs arbitrary: m d)
  case Nil
  then show ?case by simp
next
  case (Cons v vs)
  from Cons.prems(1) obtain q m1 d1 where
    1: "da_push m d v = Inr (Some q, m1, d1)" and 2: "push_all m1 d1 vs = Inr (Some p, m', d')"
    by (auto split: sum.splits prod.splits option.splits)
  from da_push_ok[OF 1 Cons.prems(2,3)]
  have a: "da_wf d1" "d_length d1 = d_length d + 1" "d_length d1 \<le> length (d_data d1)"
    "take (d_length d1) (d_data d1) = take (d_length d) (d_data d) @ [v]"
    by auto
  from Cons.IH[OF 2 a(1) a(3)] a(2,4) show ?case by auto
qed

lemma da_pop_Suc:
  assumes "d_length d = Suc k" and "Suc k \<le> length (d_data d)" and "length (d_data d) \<le> SIZE_MAX"
  shows "da_pop d = Inr (d_data d ! k, d\<lparr>d_length := k\<rparr>)"
proof -
  have "size_t_sub (Suc k) 1 = Suc k - 1"
    using assms(2,3) by (intro size_t_sub_simple) simp_all
  then show ?thesis using assms by (simp add: da_pop_def da_length_def)
qed

lemma pop_n_content:
  assumes "d_length d = l + n" and "l + n \<le> length (d_data d)"
    and "length (d_data d) \<le> SIZE_MAX"
  shows "pop_n d n = Inr (rev (take n (drop l (d_data d))), d\<lparr>d_length := l\<rparr>)"
  using assms
proof (induction n arbitrary: d)
  case 0
  then show ?case by simp
next
  case (Suc n)
  have p: "da_pop d = Inr (d_data d ! (l + n), d\<lparr>d_length := l + n\<rparr>)"
    using Suc.prems by (intro da_pop_Suc) simp_all
  have "pop_n (d\<lparr>d_length := l + n\<rparr>) n
      = Inr (rev (take n (drop l (d_data d))), d\<lparr>d_length := l + n, d_length := l\<rparr>)"
    using Suc.prems Suc.IH[of "d\<lparr>d_length := l + n\<rparr>"] by simp
  moreover have "take (Suc n) (drop l (d_data d)) = take n (drop l (d_data d)) @ [d_data d ! (l + n)]"
    using Suc.prems(2) by (simp add: take_Suc_conv_app_nth)
  ultimately show ?case using p by simp
qed

text \<open>
  C7: pushing \<open>vs\<close> onto a well-formed darray that holds its elements, all pushes
  succeeding, and then popping \<open>length vs\<close> times returns \<open>rev vs\<close>; no pop faults, and
  the block is the one the pushes left with its length back at the length before them.
\<close>

theorem C7_push_pop:
  assumes "da_wf d" and "da_length d \<le> length (d_data d)"
    and "push_all m d vs = Inr (Some p, m', d')"
  shows "pop_n d' (length vs) = Inr (rev vs, d'\<lparr>d_length := da_length d\<rparr>)"
proof -
  from assms(2) have len: "d_length d \<le> length (d_data d)" by (simp add: da_length_def)
  from push_all_ok[OF assms(3) assms(1) len]
  have wf': "da_wf d'" and l': "d_length d' = d_length d + length vs"
    and room: "d_length d' \<le> length (d_data d')"
    and content: "take (d_length d') (d_data d') = take (d_length d) (d_data d) @ vs"
    by auto
  from wf' have mx: "length (d_data d') \<le> SIZE_MAX" by (simp add: da_wf_def)
  from room l' have r2: "d_length d + length vs \<le> length (d_data d')" by simp
  have "take (length vs) (drop (d_length d) (d_data d'))
      = drop (d_length d) (take (d_length d + length vs) (d_data d'))"
    by (simp add: drop_take)
  also have "\<dots> = drop (d_length d) (take (d_length d) (d_data d) @ vs)"
    using content l' by simp
  also have "\<dots> = vs" using len by simp
  finally have vs: "take (length vs) (drop (d_length d) (d_data d')) = vs" .
  from pop_n_content[OF l' r2 mx] vs
  show ?thesis by (simp add: da_length_def)
qed

text \<open>
  Witness for C7: a full darray of three elements; the first push reallocates. Pushing
  8 and 9 and popping twice gives 9 and 8 and length 3.
\<close>

theorem C7_push_pop_witness:
  "da_wf (ex_ints (ex_funcs 7) 3 [4, 5, 6]) \<and>
   da_length (ex_ints (ex_funcs 7) 3 [4, 5, 6]) \<le> length (d_data (ex_ints (ex_funcs 7) 3 [4, 5, 6])) \<and>
   (case push_all 0 (ex_ints (ex_funcs 7) 3 [4, 5, 6]) [8, 9] of
      Inr (Some p, m', d') \<Rightarrow>
        (case pop_n d' 2 of
           Inr (xs, d'') \<Rightarrow> xs = [9, 8] \<and> da_length d'' = 3
         | _ \<Rightarrow> False)
    | _ \<Rightarrow> False)"
proof -
  let ?d = "ex_ints (ex_funcs 7) 3 [4, 5, 6]"
  have h1: "da_wf ?d" by (simp add: da_wf_def ex_eval SIZE_MAX_def)
  have h2: "da_length ?d \<le> length (d_data ?d)" by (simp add: ex_eval)
  have l: "da_length ?d = 3" by (simp add: ex_eval)
  obtain p m' d' where r: "push_all 0 ?d [8, 9] = Inr (Some p, m', d')"
    by (simp add: da_push_def store_back_def da_reserve_def newcap_eval ex_eval)
  have "pop_n d' (length [8, 9 :: nat]) = Inr (rev [8, 9], d'\<lparr>d_length := da_length ?d\<rparr>)"
    using h1 h2 r by (rule C7_push_pop)
  moreover have "length [8, 9 :: nat] = 2" "rev [8, 9 :: nat] = [9, 8]" by simp_all
  ultimately have "pop_n d' 2 = Inr ([9, 8], d'\<lparr>d_length := 3\<rparr>)" by (simp only: l)
  then have "(case pop_n d' 2 of
      Inr (xs, d'') \<Rightarrow> xs = [9, 8] \<and> da_length d'' = 3 | _ \<Rightarrow> False)"
    by (simp add: da_length_def)
  then show ?thesis using h1 h2 by (simp only: r sum.case prod.case option.case simp_thms)
qed

section \<open>Well-formedness of the core operations\<close>

lemma wrap_concat_sz:
  assumes "size_t_sub l 1 + size_t (k + 1) \<le> SIZE_MAX"
  shows "size_t (l + k) = size_t_sub l 1 + size_t (k + 1)"
proof (rule wrap_unique[OF _ _ assms])
  show "int (size_t (l + k)) = (int l + int k) mod 2 ^ 64"
    by (simp only: size_t_int of_nat_add)
  have "int (size_t_sub l 1 + size_t (k + 1))
      = (int l - 1) mod 2 ^ 64 + (int k + 1) mod 2 ^ 64"
    by (simp only: size_t_int size_t_sub_int of_nat_add of_nat_1)
  moreover have "((int l - 1) mod 2 ^ 64 + (int k + 1) mod 2 ^ 64) mod 2 ^ 64
      = (int l + int k) mod 2 ^ 64"
    by (rule mod_sum2) simp
  ultimately show "int (size_t_sub l 1 + size_t (k + 1)) mod 2 ^ 64 = (int l + int k) mod 2 ^ 64"
    by (simp only:)
qed

text \<open>Well-formedness is kept by every operation that does not fault.\<close>

lemma da_wf_max: "da_wf d \<Longrightarrow> length (d_data d) \<le> SIZE_MAX"
  by (simp add: da_wf_def)

lemma store_back_wf: "store_back m d v = Inr (p, m', d') \<Longrightarrow> da_wf d \<Longrightarrow> da_wf d'"
  by (frule store_back_Some) (auto simp: da_wf_def)

lemma da_push_wf:
  assumes "da_push m d v = Inr (p, m', d')" and "da_wf d"
  shows "da_wf d'"
proof (cases "d_length d = d_capacity d")
  case False
  with assms(1) have "store_back m d v = Inr (p, m', d')"
    by (simp add: da_push_def da_length_def da_capacity_def)
  then show ?thesis using assms(2) by (rule store_back_wf)
next
  case True
  with assms(1) have "(case da_reserve m d 1 of Inl f \<Rightarrow> Inl f
      | Inr (None, m', d') \<Rightarrow> Inr (None, m', d')
      | Inr (Some p, m', d') \<Rightarrow> store_back m' d' v) = Inr (p, m', d')"
    by (simp add: da_push_def da_length_def da_capacity_def)
  then show ?thesis using assms(2)
    by (auto split: sum.splits prod.splits option.splits dest: da_reserve_wf store_back_wf)
qed

lemma da_pop_wf: "da_pop d = Inr (v, d') \<Longrightarrow> da_wf d \<Longrightarrow> da_wf d'"
  by (auto simp: da_pop_def Let_def da_wf_def split: if_splits)

lemma da_move_and_insert_wf:
  assumes "da_move_and_insert m d i v = Inr (p, m', d')" and "da_wf d"
  shows "da_wf d'"
proof -
  from assms(1) obtain moved where
    mv: "memmove (d_data d) (i + 1) i (size_t_sub (d_length d) i) = Inr moved"
    and d': "d' = d\<lparr>d_data := moved[i := v], d_length := size_t (d_length d + 1)\<rparr>"
    by (auto simp: da_move_and_insert_def da_length_def split: sum.splits if_splits)
  from memmove_bounds[OF mv] have b: "i + 1 + size_t_sub (d_length d) i \<le> length (d_data d)"
    by simp
  with da_wf_max[OF assms(2)] have "i + 1 + size_t_sub (d_length d) i \<le> SIZE_MAX" by simp
  from wrap_insert[OF this] b have "size_t (d_length d + 1) \<le> length (d_data d)" by simp
  with d' assms(2) memmove_length[OF mv] show ?thesis by (simp add: da_wf_def)
qed

lemma da_insert_wf:
  assumes "da_insert m d i v = Inr (p, m', d')" and "da_wf d"
  shows "da_wf d'"
proof (cases "d_length d = d_capacity d")
  case False
  with assms(1) have "da_move_and_insert m d i v = Inr (p, m', d')"
    by (simp add: da_insert_def da_length_def da_capacity_def)
  then show ?thesis using assms(2) by (rule da_move_and_insert_wf)
next
  case True
  with assms(1) have "(case da_reserve m d 1 of Inl f \<Rightarrow> Inl f
      | Inr (None, m', d') \<Rightarrow> Inl NullDereference
      | Inr (Some p, m', d') \<Rightarrow> da_move_and_insert m' d' i v) = Inr (p, m', d')"
    by (simp add: da_insert_def da_length_def da_capacity_def)
  then show ?thesis using assms(2)
    by (auto split: sum.splits prod.splits option.splits
        dest: da_reserve_wf da_move_and_insert_wf)
qed

lemma da_remove_arr_wf:
  assumes "da_remove_arr d i n = Inr d'" and "da_wf d"
  shows "da_wf d'"
proof -
  from assms(1) obtain moved where
    mv: "memmove (d_data d) i (size_t (i + n)) (size_t_sub (size_t_sub (d_length d) i) n) = Inr moved"
    and d': "d' = d\<lparr>d_data := moved, d_length := size_t_sub (d_length d) n\<rparr>"
    by (auto simp: da_remove_arr_def da_length_def split: sum.splits)
  from memmove_bounds[OF mv]
  have b: "i + size_t_sub (size_t_sub (d_length d) i) n \<le> length (d_data d)" by simp
  with da_wf_max[OF assms(2)] have "i + size_t_sub (size_t_sub (d_length d) i) n \<le> SIZE_MAX"
    by simp
  from wrap_remove_arr[OF this] b have "size_t_sub (d_length d) n \<le> length (d_data d)" by simp
  with d' assms(2) memmove_length[OF mv] show ?thesis by (simp add: da_wf_def)
qed

lemma da_remove_wf:
  assumes "da_remove d i = Inr (v, d')" and "da_wf d"
  shows "da_wf d'"
proof -
  from assms(1) obtain moved where
    mv: "memmove (d_data d) i (i + 1) (size_t_sub (size_t_sub (d_length d) i) 1) = Inr moved"
    and d': "d' = d\<lparr>d_data := moved, d_length := size_t_sub (d_length d) 1\<rparr>"
    by (auto simp: da_remove_def da_length_def split: sum.splits if_splits)
  from memmove_bounds[OF mv]
  have b: "i + size_t_sub (size_t_sub (d_length d) i) 1 \<le> length (d_data d)" by simp
  with da_wf_max[OF assms(2)] have "i + size_t_sub (size_t_sub (d_length d) i) 1 \<le> SIZE_MAX"
    by simp
  from wrap_remove_arr[OF this] b have "size_t_sub (d_length d) 1 \<le> length (d_data d)" by simp
  with d' assms(2) memmove_length[OF mv] show ?thesis by (simp add: da_wf_def)
qed

lemma da_insert_arr_wf:
  assumes "da_insert_arr m d i src n = Inr (p, m', d')" and "da_wf d"
  shows "da_wf d'"
proof (cases "da_reserve m d n")
  case (Inl f)
  with assms(1) show ?thesis by (simp add: da_insert_arr_def)
next
  case (Inr r)
  obtain q m1 d1 where r: "r = (q, m1, d1)" by (cases r)
  with Inr have res: "da_reserve m d n = Inr (q, m1, d1)" by simp
  have wf1: "da_wf d1" using res assms(2) by (rule da_reserve_wf)
  show ?thesis
  proof (cases q)
    case None
    with res assms(1) wf1 show ?thesis by (simp add: da_insert_arr_def)
  next
    case (Some q')
    with res assms(1) obtain moved copied where
      mv: "memmove (d_data d1) (size_t (i + n)) i (size_t_sub (d_length d1) i) = Inr moved"
      and cp: "memcpy moved i src n = Inr copied"
      and d': "d' = d1\<lparr>d_data := copied, d_length := size_t (d_length d1 + n)\<rparr>"
      by (auto simp: da_insert_arr_def da_length_def split: sum.splits)
    from memmove_bounds[OF mv]
    have b: "size_t (i + n) + size_t_sub (d_length d1) i \<le> length (d_data d1)" by simp
    with da_wf_max[OF wf1] have "size_t (i + n) + size_t_sub (d_length d1) i \<le> SIZE_MAX"
      by simp
    from wrap_insert_arr[OF this] b have "size_t (d_length d1 + n) \<le> length (d_data d1)"
      by simp
    with d' wf1 memmove_length[OF mv] memcpy_length[OF cp] show ?thesis
      by (simp add: da_wf_def)
  qed
qed

lemma da_concat_wf:
  assumes "da_concat m d src n = Inr (p, m', d')" and "da_wf d"
  shows "da_wf d'"
proof (cases "da_reserve m d n")
  case (Inl f)
  with assms(1) show ?thesis by (simp add: da_concat_def)
next
  case (Inr r)
  obtain q m1 d1 where r: "r = (q, m1, d1)" by (cases r)
  with Inr have res: "da_reserve m d n = Inr (q, m1, d1)" by simp
  have wf1: "da_wf d1" using res assms(2) by (rule da_reserve_wf)
  have l1: "d_length d1 = d_length d" using res by (rule da_reserve_length)
  show ?thesis
  proof (cases q)
    case None
    with res assms(1) wf1 show ?thesis by (simp add: da_concat_def)
  next
    case (Some q')
    with res assms(1) obtain copied where
      cp: "memcpy (d_data d1) (d_length d) src n = Inr copied"
      and d': "d' = d1\<lparr>d_data := copied, d_length := size_t (d_length d1 + n)\<rparr>"
      by (auto simp: da_concat_def da_length_def Let_def split: sum.splits)
    from memcpy_bounds[OF cp] have b: "d_length d + n \<le> length (d_data d1)" by simp
    with da_wf_max[OF wf1] have "d_length d + n \<le> SIZE_MAX" by simp
    then have "size_t (d_length d + n) = d_length d + n" by (rule size_t_id)
    with d' wf1 l1 b memcpy_length[OF cp] show ?thesis by (simp add: da_wf_def)
  qed
qed

section \<open>Well-formedness along a sequence of calls\<close>

lemma after_wf:
  "after r = Inr (m', d') \<Longrightarrow> (\<And>p. r = Inr (p, m', d') \<Longrightarrow> da_wf d') \<Longrightarrow> da_wf d'"
  by (auto simp: after_def split: sum.splits prod.splits)

lemma da_exec_wf:
  assumes "da_exec m d c = Inr (m', d')" and "da_wf d"
  shows "da_wf d'"
proof (cases c)
  case (Resize n)
  with assms show ?thesis by (auto elim!: after_wf dest: da_resize_wf)
next
  case (Resize_exact n)
  with assms show ?thesis by (auto elim!: after_wf dest: da_resize_exact_wf)
next
  case (Reserve n)
  with assms show ?thesis by (auto elim!: after_wf dest: da_reserve_wf)
next
  case (Push v)
  with assms show ?thesis by (auto elim!: after_wf dest: da_push_wf)
next
  case Pop
  with assms show ?thesis by (auto split: sum.splits prod.splits dest: da_pop_wf)
next
  case (Insert i v)
  with assms show ?thesis by (auto elim!: after_wf dest: da_insert_wf)
next
  case (Insert_arr i src n)
  with assms show ?thesis by (auto elim!: after_wf dest: da_insert_arr_wf)
next
  case (Remove i)
  with assms show ?thesis by (auto split: sum.splits prod.splits dest: da_remove_wf)
next
  case (Remove_arr i n)
  with assms show ?thesis by (auto split: sum.splits dest: da_remove_arr_wf)
next
  case (Concat src n)
  with assms show ?thesis by (auto elim!: after_wf dest: da_concat_wf)
qed

lemma da_trace_wf: "da_wf d \<Longrightarrow> x \<in> set (da_trace m d cs) \<Longrightarrow> da_wf x"
proof (induction cs arbitrary: m d)
  case Nil
  then show ?case by simp
next
  case (Cons c cs)
  show ?case
  proof (cases "da_exec m d c")
    case (Inl f)
    with Cons.prems show ?thesis by simp
  next
    case (Inr r)
    obtain m1 d1 where r: "r = (m1, d1)" by (cases r)
    with Inr have e: "da_exec m d c = Inr (m1, d1)" by simp
    have wf1: "da_wf d1" using e Cons.prems(1) by (rule da_exec_wf)
    from Cons.prems(2) e have "x = d1 \<or> x \<in> set (da_trace m1 d1 cs)" by simp
    then show ?thesis using wf1 Cons.IH[OF wf1] by blast
  qed
qed

lemma da_create_wf: "da_create a mf m n e = Inr (Some d, m') \<Longrightarrow> da_wf d"
  by (cases a) (auto dest: da_alloc_wf da_alloc_exact_wf da_alloc_custom_wf da_alloc_exact_custom_wf)

lemma da_program_wf:
  assumes "x \<in> set (da_program a mf m n e cs)"
  shows "da_wf x"
proof (cases "da_create a mf m n e")
  case (Inl f)
  with assms show ?thesis by (simp add: da_program_def)
next
  case (Inr r)
  obtain o1 m1 where r: "r = (o1, m1)" by (cases r)
  show ?thesis
  proof (cases o1)
    case None
    with Inr r assms show ?thesis by (simp add: da_program_def)
  next
    case (Some d)
    with Inr r have c: "da_create a mf m n e = Inr (Some d, m1)" by simp
    then have wf: "da_wf d" by (rule da_create_wf)
    from assms c have "x = d \<or> x \<in> set (da_trace m1 d cs)" by (simp add: da_program_def)
    then show ?thesis using wf da_trace_wf[OF wf] by blast
  qed
qed

section \<open>Well-formedness of the dstring operations\<close>

lemma da_wf_reset: "da_wf d \<Longrightarrow> da_wf (d\<lparr>d_length := 0\<rparr>)"
  by (simp add: da_wf_def)

lemma dstr_reassign_empty_wf:
  "dstr_reassign_empty m d = Inr (p, m', d') \<Longrightarrow> da_wf d \<Longrightarrow> da_wf d'"
  unfolding dstr_reassign_empty_def by (erule da_concat_wf) (rule da_wf_reset)

lemma dstr_reassign_cstr_wf:
  "dstr_reassign_cstr m d s = Inr (p, m', d') \<Longrightarrow> da_wf d \<Longrightarrow> da_wf d'"
  unfolding dstr_reassign_cstr_def by (erule da_concat_wf) (rule da_wf_reset)

text \<open>Reassigning from another block, and from the target itself.\<close>

lemma dstr_reassign_dstr_other:
  "d_handle src \<noteq> d_handle d \<Longrightarrow>
   dstr_reassign_dstr m d src = da_concat m (d\<lparr>d_length := 0\<rparr>) (d_data src) (d_length src)"
  by (simp add: dstr_reassign_dstr_def Let_def da_length_def)

lemma dstr_reassign_dstr_same:
  "d_handle src = d_handle d \<Longrightarrow>
   dstr_reassign_dstr m d src = da_concat m (d\<lparr>d_length := 0\<rparr>) (d_data d) 0"
  by (simp add: dstr_reassign_dstr_def Let_def da_length_def)

lemma dstr_reassign_dstr_wf:
  assumes "dstr_reassign_dstr m d src = Inr (p, m', d')" and "da_wf d"
  shows "da_wf d'"
proof (cases "d_handle src = d_handle d")
  case True
  with assms(1) have "da_concat m (d\<lparr>d_length := 0\<rparr>) (d_data d) 0 = Inr (p, m', d')"
    by (simp add: dstr_reassign_dstr_same)
  then show ?thesis using da_wf_reset[OF assms(2)] by (rule da_concat_wf)
next
  case False
  with assms(1) have "da_concat m (d\<lparr>d_length := 0\<rparr>) (d_data src) (d_length src) = Inr (p, m', d')"
    by (simp add: dstr_reassign_dstr_other)
  then show ?thesis using da_wf_reset[OF assms(2)] by (rule da_concat_wf)
qed

text \<open>The shape shared by the operations that reserve and then write.\<close>

lemma reserve_then_write_wf:
  assumes res: "da_reserve m d n = Inr (Some q, m1, d1)" and wf: "da_wf d"
    and cp: "memcpy (d_data d1) pos src k = Inr written"
    and l: "l \<le> pos + k"
  shows "da_wf (d1\<lparr>d_data := written, d_length := l\<rparr>)"
proof -
  have wf1: "da_wf d1" using res wf by (rule da_reserve_wf)
  from memcpy_bounds[OF cp] l have "l \<le> length (d_data d1)" by simp
  with wf1 memcpy_length[OF cp] show ?thesis by (simp add: da_wf_def)
qed

lemma dstr_reassign_format_wf:
  assumes "dstr_reassign_format m d r = Inr (p, m', d')" and "da_wf d"
  shows "da_wf d'"
proof (cases "da_reserve m (d\<lparr>d_length := 0\<rparr>) (size_t (length r + 1))")
  case (Inl f)
  with assms(1) show ?thesis by (simp add: dstr_reassign_format_def)
next
  case (Inr x)
  obtain q m1 d1 where x: "x = (q, m1, d1)" by (cases x)
  with Inr have res: "da_reserve m (d\<lparr>d_length := 0\<rparr>) (size_t (length r + 1)) = Inr (q, m1, d1)"
    by simp
  have wf0: "da_wf (d\<lparr>d_length := 0\<rparr>)" using assms(2) by (rule da_wf_reset)
  show ?thesis
  proof (cases q)
    case None
    with res assms(1) da_reserve_wf[OF res wf0] show ?thesis
      by (simp add: dstr_reassign_format_def)
  next
    case (Some q')
    with res assms(1) obtain written where
      cp: "memcpy (d_data d1) 0 (r @ [NUL]) (length r + 1) = Inr written"
      and d': "d' = d1\<lparr>d_data := written, d_length := size_t (length r + 1)\<rparr>"
      by (auto simp: dstr_reassign_format_def Let_def split: sum.splits)
    have "size_t (length r + 1) \<le> 0 + (length r + 1)" using size_t_le[of "length r + 1"] by simp
    from reserve_then_write_wf[OF res[unfolded Some] wf0 cp this] d' show ?thesis by simp
  qed
qed

lemma dstr_concat_char_wf:
  "dstr_concat_char m d c = Inr (p, m', d') \<Longrightarrow> da_wf d \<Longrightarrow> da_wf d'"
  unfolding dstr_concat_char_def by (rule da_insert_wf)

lemma dstr_concat_cstr_wf:
  assumes "dstr_concat_cstr m d s = Inr (p, m', d')" and "da_wf d"
  shows "da_wf d'"
proof (cases "da_reserve m d (strlen s)")
  case (Inl f)
  with assms(1) show ?thesis by (simp add: dstr_concat_cstr_def)
next
  case (Inr x)
  obtain q m1 d1 where x: "x = (q, m1, d1)" by (cases x)
  with Inr have res: "da_reserve m d (strlen s) = Inr (q, m1, d1)" by simp
  have l1: "d_length d1 = d_length d" using res by (rule da_reserve_length)
  show ?thesis
  proof (cases q)
    case None
    with res assms(1) da_reserve_wf[OF res assms(2)] show ?thesis
      by (simp add: dstr_concat_cstr_def)
  next
    case (Some q')
    with res assms(1) obtain written where
      cp: "memcpy (d_data d1) (size_t_sub (d_length d) 1) (cstr_bytes s) (size_t (strlen s + 1))
            = Inr written"
      and d': "d' = d1\<lparr>d_data := written, d_length := size_t (d_length d1 + strlen s)\<rparr>"
      by (auto simp: dstr_concat_cstr_def dstr_length_def da_length_def Let_def split: sum.splits)
    from memcpy_bounds[OF cp] da_wf_max[OF da_reserve_wf[OF res assms(2)]]
    have "size_t_sub (d_length d) 1 + size_t (strlen s + 1) \<le> SIZE_MAX" by simp
    from wrap_concat_sz[OF this] l1
    have "size_t (d_length d1 + strlen s) \<le> size_t_sub (d_length d) 1 + size_t (strlen s + 1)"
      by simp
    from reserve_then_write_wf[OF res[unfolded Some] assms(2) cp this] d' show ?thesis by simp
  qed
qed

lemma dstr_concat_dstr_wf:
  assumes "dstr_concat_dstr m d src = Inr (p, m', d')" and "da_wf d"
  shows "da_wf d'"
proof (cases "da_reserve m d (dstr_length src)")
  case (Inl f)
  with assms(1) show ?thesis by (simp add: dstr_concat_dstr_def)
next
  case (Inr x)
  obtain q m1 d1 where x: "x = (q, m1, d1)" by (cases x)
  with Inr have res: "da_reserve m d (dstr_length src) = Inr (q, m1, d1)" by simp
  have l1: "d_length d1 = d_length d" using res by (rule da_reserve_length)
  show ?thesis
  proof (cases q)
    case None
    with res assms(1) da_reserve_wf[OF res assms(2)] show ?thesis
      by (simp add: dstr_concat_dstr_def)
  next
    case (Some q')
    with res assms(1) obtain written where
      cp: "memcpy (d_data d1) (size_t_sub (d_length d) 1) (d_data src)
            (size_t (dstr_length src + 1)) = Inr written"
      and d': "d' = d1\<lparr>d_data := written, d_length := size_t (d_length d1 + dstr_length src)\<rparr>"
      by (auto simp: dstr_concat_dstr_def dstr_length_def da_length_def Let_def split: sum.splits)
    from memcpy_bounds[OF cp] da_wf_max[OF da_reserve_wf[OF res assms(2)]]
    have "size_t_sub (d_length d) 1 + size_t (dstr_length src + 1) \<le> SIZE_MAX" by simp
    from wrap_concat_sz[OF this] l1
    have "size_t (d_length d1 + dstr_length src)
        \<le> size_t_sub (d_length d) 1 + size_t (dstr_length src + 1)"
      by simp
    from reserve_then_write_wf[OF res[unfolded Some] assms(2) cp this] d' show ?thesis by simp
  qed
qed

lemma dstr_concat_format_wf:
  assumes "dstr_concat_format m d r = Inr (p, m', d')" and "da_wf d"
  shows "da_wf d'"
proof (cases "da_reserve m d (length r)")
  case (Inl f)
  with assms(1) show ?thesis by (simp add: dstr_concat_format_def)
next
  case (Inr x)
  obtain q m1 d1 where x: "x = (q, m1, d1)" by (cases x)
  with Inr have res: "da_reserve m d (length r) = Inr (q, m1, d1)" by simp
  have l1: "d_length d1 = d_length d" using res by (rule da_reserve_length)
  show ?thesis
  proof (cases q)
    case None
    with res assms(1) da_reserve_wf[OF res assms(2)] show ?thesis
      by (simp add: dstr_concat_format_def)
  next
    case (Some q')
    with res assms(1) obtain written where
      cp: "memcpy (d_data d1) (size_t_sub (d_length d) 1) (r @ [NUL]) (length r + 1) = Inr written"
      and d': "d' = d1\<lparr>d_data := written, d_length := size_t (d_length d1 + length r)\<rparr>"
      by (auto simp: dstr_concat_format_def dstr_length_def da_length_def Let_def
          split: sum.splits)
    from memcpy_bounds[OF cp] da_wf_max[OF da_reserve_wf[OF res assms(2)]]
    have "size_t_sub (d_length d) 1 + (length r + 1) \<le> SIZE_MAX" by simp
    from wrap_concat_cstr[OF this] l1
    have "size_t (d_length d1 + length r) \<le> size_t_sub (d_length d) 1 + (length r + 1)"
      by simp
    from reserve_then_write_wf[OF res[unfolded Some] assms(2) cp this] d' show ?thesis by simp
  qed
qed

section \<open>C4: capacity and length along a program\<close>

text \<open>One round of the replace loop, for either search.\<close>

lemma replace_step_wf:
  assumes rm: "da_remove_arr d i k = Inr removed" and wf: "da_wf d"
    and ins: "da_insert_arr m removed i src n = Inr (p, m', d')"
  shows "da_wf d'"
  using ins da_remove_arr_wf[OF rm wf] by (rule da_insert_arr_wf)

lemma dstr_replace_all_wf:
  assumes "dstr_replace_all m d s t = Some (Inr (p, m', d'))" and "da_wf d"
  shows "da_wf d'"
proof -
  let ?P = "\<lambda>(m::'a) (d::('a, char) darray) (s::string) (t::string) (y::('a, char) ret).
      da_wf d \<longrightarrow> (\<forall>p m' d'. y = Inr (p, m', d') \<longrightarrow> da_wf d')"
  have "?P m d s t (Inr (p, m', d'))"
  proof (rule dstr_replace_all.raw_induct[where P = ?P, OF _ assms(1)])
    fix f :: "'a \<Rightarrow> ('a, char) darray \<Rightarrow> string \<Rightarrow> string \<Rightarrow> ('a, char) ret option"
    fix m d s t y
    assume IH: "\<And>m d s t y. f m d s t = Some y \<Longrightarrow> ?P m d s t y"
      and body: "(case dstr_find d s of
        Inl f \<Rightarrow> Some (Inl f)
      | Inr loc \<Rightarrow>
          if loc = - 1 then Some (Inr (Some (d_handle d), m, d))
          else (case da_remove_arr d (nat loc) (strlen s) of
                  Inl f \<Rightarrow> Some (Inl f)
                | Inr removed \<Rightarrow>
                    (case da_insert_arr m removed (nat loc) (cstr_bytes t) (strlen t) of
                       Inl f \<Rightarrow> Some (Inl f)
                     | Inr (None, m', d') \<Rightarrow> Some (Inr (None, m', d'))
                     | Inr (Some p, m', d') \<Rightarrow> f m' d' s t))) = Some y"
    show "?P m d s t y"
    proof (intro impI allI)
      fix p m' d'
      assume wf: "da_wf d" and y: "y = Inr (p, m', d')"
      show "da_wf d'"
      proof (cases "dstr_find d s")
        case (Inl e)
        with body y show ?thesis by simp
      next
        case (Inr loc)
        show ?thesis
        proof (cases "loc = - 1")
          case True
          with Inr body y wf show ?thesis by simp
        next
          case False
          show ?thesis
          proof (cases "da_remove_arr d (nat loc) (strlen s)")
            case (Inl e)
            with Inr False body y show ?thesis by simp
          next
            case rm: (Inr removed)
            have wfr: "da_wf removed" using rm wf by (rule da_remove_arr_wf)
            show ?thesis
            proof (cases "da_insert_arr m removed (nat loc) (cstr_bytes t) (strlen t)")
              case (Inl e)
              with Inr False rm body y show ?thesis by simp
            next
              case ins: (Inr x)
              obtain q m1 d1 where x: "x = (q, m1, d1)" by (cases x)
              have wf1: "da_wf d1" using ins[unfolded x] wfr by (rule da_insert_arr_wf)
              show ?thesis
              proof (cases q)
                case None
                with Inr False rm ins x body y wf1 show ?thesis by simp
              next
                case (Some q')
                with Inr False rm ins x body have "f m1 d1 s t = Some y" by simp
                from IH[OF this] wf1 y show ?thesis by blast
              qed
            qed
          qed
        qed
      qed
    qed
  qed
  with assms show ?thesis by blast
qed

lemma dstr_replace_all_case_wf:
  assumes "dstr_replace_all_case m d s t = Some (Inr (p, m', d'))" and "da_wf d"
  shows "da_wf d'"
proof -
  let ?P = "\<lambda>(m::'a) (d::('a, char) darray) (s::string) (t::string) (y::('a, char) ret).
      da_wf d \<longrightarrow> (\<forall>p m' d'. y = Inr (p, m', d') \<longrightarrow> da_wf d')"
  have "?P m d s t (Inr (p, m', d'))"
  proof (rule dstr_replace_all_case.raw_induct[where P = ?P, OF _ assms(1)])
    fix f :: "'a \<Rightarrow> ('a, char) darray \<Rightarrow> string \<Rightarrow> string \<Rightarrow> ('a, char) ret option"
    fix m d s t y
    assume IH: "\<And>m d s t y. f m d s t = Some y \<Longrightarrow> ?P m d s t y"
      and body: "(case dstr_find_case d s of
        Inl f \<Rightarrow> Some (Inl f)
      | Inr loc \<Rightarrow>
          if loc = - 1 then Some (Inr (Some (d_handle d), m, d))
          else (case da_remove_arr d (nat loc) (strlen s) of
                  Inl f \<Rightarrow> Some (Inl f)
                | Inr removed \<Rightarrow>
                    (case da_insert_arr m removed (nat loc) (cstr_bytes t) (strlen t) of
                       Inl f \<Rightarrow> Some (Inl f)
                     | Inr (None, m', d') \<Rightarrow> Some (Inr (None, m', d'))
                     | Inr (Some p, m', d') \<Rightarrow> f m' d' s t))) = Some y"
    show "?P m d s t y"
    proof (intro impI allI)
      fix p m' d'
      assume wf: "da_wf d" and y: "y = Inr (p, m', d')"
      show "da_wf d'"
      proof (cases "dstr_find_case d s")
        case (Inl e)
        with body y show ?thesis by simp
      next
        case (Inr loc)
        show ?thesis
        proof (cases "loc = - 1")
          case True
          with Inr body y wf show ?thesis by simp
        next
          case False
          show ?thesis
          proof (cases "da_remove_arr d (nat loc) (strlen s)")
            case (Inl e)
            with Inr False body y show ?thesis by simp
          next
            case rm: (Inr removed)
            have wfr: "da_wf removed" using rm wf by (rule da_remove_arr_wf)
            show ?thesis
            proof (cases "da_insert_arr m removed (nat loc) (cstr_bytes t) (strlen t)")
              case (Inl e)
              with Inr False rm body y show ?thesis by simp
            next
              case ins: (Inr x)
              obtain q m1 d1 where x: "x = (q, m1, d1)" by (cases x)
              have wf1: "da_wf d1" using ins[unfolded x] wfr by (rule da_insert_arr_wf)
              show ?thesis
              proof (cases q)
                case None
                with Inr False rm ins x body y wf1 show ?thesis by simp
              next
                case (Some q')
                with Inr False rm ins x body have "f m1 d1 s t = Some y" by simp
                from IH[OF this] wf1 y show ?thesis by blast
              qed
            qed
          qed
        qed
      qed
    qed
  qed
  with assms show ?thesis by blast
qed


text \<open>The loop body on a byte that is neither the delimiter nor taken for the end.\<close>

lemma dstr_getdelim_loop_step:
  assumes "int (of_char b) \<noteq> delim"
  shows "dstr_getdelim_loop m d delim (b # stream) =
    (case dstr_concat_char m d b of
       Inl f \<Rightarrow> Inl f
     | Inr (None, m', d') \<Rightarrow> Inr (None, m', d', stream)
     | Inr (Some p, m', d') \<Rightarrow> dstr_getdelim_loop m' d' delim stream)"
proof -
  have "int (of_char b) \<noteq> EOF" by (simp add: EOF_def)
  with assms show ?thesis by (simp add: Let_def)
qed

lemma dstr_getdelim_loop_wf:
  "dstr_getdelim_loop m d delim stream = Inr (p, m', d', rest) \<Longrightarrow> da_wf d \<Longrightarrow> da_wf d'"
proof (induction stream arbitrary: m d)
  case Nil
  then show ?case by (simp split: if_splits)
next
  case (Cons b stream)
  show ?case
  proof (cases "int (of_char b) = delim")
    case True
    with Cons.prems show ?thesis by (simp add: Let_def)
  next
    case False
    note step = dstr_getdelim_loop_step[OF False, of m d stream]
    show ?thesis
    proof (cases "dstr_concat_char m d b")
      case (Inl f)
      with step Cons.prems(1) show ?thesis by simp
    next
      case (Inr x)
      obtain q m1 d1 where x: "x = (q, m1, d1)" by (cases x)
      have wf1: "da_wf d1" using Inr[unfolded x] Cons.prems(2) by (rule dstr_concat_char_wf)
      show ?thesis
      proof (cases q)
        case None
        with step Inr x Cons.prems(1) wf1 show ?thesis by simp
      next
        case (Some q')
        with step Inr x Cons.prems(1)
        have "dstr_getdelim_loop m1 d1 delim stream = Inr (p, m', d', rest)" by simp
        then show ?thesis using wf1 by (rule Cons.IH)
      qed
    qed
  qed
qed

lemma dstr_getdelim_wf:
  assumes "dstr_getdelim m d delim stream = Inr (p, m', d', rest)" and "da_wf d"
  shows "da_wf d'"
proof (cases "dstr_reassign_empty m d")
  case (Inl f)
  with assms(1) show ?thesis by (simp add: dstr_getdelim_def)
next
  case (Inr x)
  obtain q m1 d1 where x: "x = (q, m1, d1)" by (cases x)
  have wf1: "da_wf d1" using Inr[unfolded x] assms(2) by (rule dstr_reassign_empty_wf)
  show ?thesis
  proof (cases q)
    case None
    with Inr x assms(1) wf1 show ?thesis by (simp add: dstr_getdelim_def)
  next
    case (Some q')
    with Inr x assms(1) have "dstr_getdelim_loop m1 d1 delim stream = Inr (p, m', d', rest)"
      by (simp add: dstr_getdelim_def)
    then show ?thesis using wf1 by (rule dstr_getdelim_loop_wf)
  qed
qed

lemma dstr_trim_wf:
  assumes "dstr_trim d = Inr d'" and "da_wf d"
  shows "da_wf d'"
proof -
  from assms(1) obtain n d1 n' where
    1: "da_remove_arr d 0 n = Inr d1"
    and 2: "da_remove_arr d1 (size_t_sub (dstr_length d1) n') n' = Inr d'"
    by (auto simp: dstr_trim_def Let_def split: sum.splits if_splits)
  from 2 da_remove_arr_wf[OF 1 assms(2)] show ?thesis by (rule da_remove_arr_wf)
qed

lemma dstr_alloc_cstr_wf:
  assumes "dstr_alloc_cstr mf m s = Inr (Some d, m')"
  shows "da_wf d"
proof -
  from assms obtain d0 copied where
    a: "da_alloc mf m (size_t (strlen s + 1)) 1 = Inr (Some d0, m')"
    and cp: "memcpy (d_data d0) 0 (cstr_bytes s) (size_t (strlen s + 1)) = Inr copied"
    and d: "d = d0\<lparr>d_data := copied\<rparr>"
    by (auto simp: dstr_alloc_cstr_def Let_def split: sum.splits prod.splits option.splits)
  from da_alloc_wf[OF a] memcpy_length[OF cp] d show ?thesis by (simp add: da_wf_def)
qed

lemma dstr_exec_wf:
  assumes "dstr_exec m d c = Some (Inr (m', d'))" and "da_wf d"
  shows "da_wf d'"
proof (cases c)
  case (Core c')
  with assms show ?thesis by (auto dest: da_exec_wf)
next
  case Reassign_empty
  with assms show ?thesis by (auto elim!: after_wf dest: dstr_reassign_empty_wf)
next
  case (Reassign_cstr s)
  with assms show ?thesis by (auto elim!: after_wf dest: dstr_reassign_cstr_wf)
next
  case (Reassign_dstr cells len)
  with assms show ?thesis by (auto elim!: after_wf dest: dstr_reassign_dstr_wf)
next
  case (Reassign_format s)
  with assms show ?thesis by (auto elim!: after_wf dest: dstr_reassign_format_wf)
next
  case (Concat_char ch)
  with assms show ?thesis by (auto elim!: after_wf dest: dstr_concat_char_wf)
next
  case (Concat_cstr s)
  with assms show ?thesis by (auto elim!: after_wf dest: dstr_concat_cstr_wf)
next
  case (Concat_dstr cells len)
  with assms show ?thesis by (auto elim!: after_wf dest: dstr_concat_dstr_wf)
next
  case (Concat_format s)
  with assms show ?thesis by (auto elim!: after_wf dest: dstr_concat_format_wf)
next
  case (Replace_all s t)
  with assms obtain r where "dstr_replace_all m d s t = Some r" "after r = Inr (m', d')"
    by auto
  with assms(2) show ?thesis by (auto elim!: after_wf dest: dstr_replace_all_wf)
next
  case (Replace_all_case s t)
  with assms obtain r where "dstr_replace_all_case m d s t = Some r" "after r = Inr (m', d')"
    by auto
  with assms(2) show ?thesis by (auto elim!: after_wf dest: dstr_replace_all_case_wf)
next
  case (Getdelim delim stream)
  with assms show ?thesis by (auto split: sum.splits prod.splits dest: dstr_getdelim_wf)
next
  case Trim
  with assms show ?thesis by (auto split: sum.splits dest: dstr_trim_wf)
qed

lemma dstr_trace_wf: "da_wf d \<Longrightarrow> x \<in> set (dstr_trace m d cs) \<Longrightarrow> da_wf x"
proof (induction cs arbitrary: m d)
  case Nil
  then show ?case by simp
next
  case (Cons c cs)
  show ?case
  proof (cases "dstr_exec m d c")
    case None
    with Cons.prems show ?thesis by simp
  next
    case (Some r)
    show ?thesis
    proof (cases r)
      case (Inl f)
      with Some Cons.prems show ?thesis by simp
    next
      case (Inr y)
      obtain m1 d1 where y: "y = (m1, d1)" by (cases y)
      with Some Inr have e: "dstr_exec m d c = Some (Inr (m1, d1))" by simp
      have wf1: "da_wf d1" using e Cons.prems(1) by (rule dstr_exec_wf)
      from Cons.prems(2) e have "x = d1 \<or> x \<in> set (dstr_trace m1 d1 cs)" by simp
      then show ?thesis using wf1 Cons.IH[OF wf1] by blast
    qed
  qed
qed

lemma dstr_program_wf:
  assumes "x \<in> set (dstr_program mf m src cs)"
  shows "da_wf x"
proof (cases "dstr_alloc_cstr mf m src")
  case (Inl f)
  with assms show ?thesis by (simp add: dstr_program_def)
next
  case (Inr r)
  obtain o1 m1 where r: "r = (o1, m1)" by (cases r)
  show ?thesis
  proof (cases o1)
    case None
    with Inr r assms show ?thesis by (simp add: dstr_program_def)
  next
    case (Some d)
    with Inr r have c: "dstr_alloc_cstr mf m src = Inr (Some d, m1)" by simp
    then have wf: "da_wf d" by (rule dstr_alloc_cstr_wf)
    from assms c have "x = d \<or> x \<in> set (dstr_trace m1 d cs)" by (simp add: dstr_program_def)
    then show ?thesis using wf dstr_trace_wf[OF wf] by blast
  qed
qed

text \<open>
  C4: along every program (an allocation followed by any calls of the core, and for a
  dstring also of the dstring operations) every block the caller sees before the first
  fault has \<open>capacity \<ge> length\<close>; this covers the block after each call that returns a
  handle.
\<close>

theorem C4_capacity_invariant:
  "(\<forall>x \<in> set (da_program a mf m nelem elem_size calls). da_capacity x \<ge> da_length x)
   \<and> (\<forall>x \<in> set (dstr_program mf' m2 src calls'). da_capacity x \<ge> da_length x)"
  by (auto dest!: da_program_wf dstr_program_wf simp: da_wf_def da_length_def da_capacity_def)

text \<open>Unfolding everything an example run of the core meets.\<close>

lemmas core_eval = da_program_def da_resize_def da_resize_exact_def da_reserve_def da_push_def
  store_back_def da_pop_def da_insert_def da_move_and_insert_def da_insert_arr_def
  da_remove_def da_remove_arr_def da_concat_def memmove_def memcpy_def mem_write_def
  da_alloc_def after_def

lemmas dstr_eval = dstr_program_def dstr_alloc_cstr_def dstr_reassign_empty_def
  dstr_reassign_cstr_def dstr_concat_char_def dstr_concat_cstr_def dstr_length_def
  dstr_trim_def dstr_text_def dstr_find_def c_str_def strlen_def cstr_bytes_def NUL_def
  isspace_def ex_dstr_def

text \<open>
  Witness for C4: an empty array of four-byte elements, a push, a reservation of 100, a
  resize to 2 and a pop; and the dstring "ab", extended by "cd" and by a character.
\<close>

theorem C4_capacity_invariant_witness:
  "map (\<lambda>x. (da_length x, da_capacity x))
      (da_program Alloc (ex_funcs 7) 0 0 4 [Push (5::nat), Reserve 100, Resize 2, Pop])
     = [(0, 10), (1, 10), (1, 131), (2, 10), (1, 10)]
   \<and> da_length (last (da_program Alloc (ex_funcs 7) 0 0 4 [Push (5::nat), Reserve 100, Resize 2, Pop]))
     \<le> da_capacity (last (da_program Alloc (ex_funcs 7) 0 0 4 [Push (5::nat), Reserve 100, Resize 2, Pop]))
   \<and> map (\<lambda>x. (da_length x, da_capacity x))
      (dstr_program (ex_funcs (CHR ''?'')) 0 ''ab'' [Concat_cstr ''cd'', Concat_char (CHR ''e'')])
     = [(3, 10), (5, 10), (6, 10)]
   \<and> da_length (last (dstr_program (ex_funcs (CHR ''?'')) 0 ''ab''
        [Concat_cstr ''cd'', Concat_char (CHR ''e'')]))
     \<le> da_capacity (last (dstr_program (ex_funcs (CHR ''?'')) 0 ''ab''
        [Concat_cstr ''cd'', Concat_char (CHR ''e'')]))"
proof -
  let ?t = "da_program Alloc (ex_funcs 7) 0 0 4 [Push (5::nat), Reserve 100, Resize 2, Pop]"
  let ?u = "dstr_program (ex_funcs (CHR ''?'')) 0 ''ab'' [Concat_cstr ''cd'', Concat_char (CHR ''e'')]"
  have t: "map (\<lambda>x. (da_length x, da_capacity x)) ?t = [(0, 10), (1, 10), (1, 131), (2, 10), (1, 10)]"
    by (simp add: core_eval newcap_eval ex_eval)
  have u: "map (\<lambda>x. (da_length x, da_capacity x)) ?u = [(3, 10), (5, 10), (6, 10)]"
    by (simp add: dstr_eval core_eval newcap_eval ex_eval)
  from t have "?t \<noteq> []" by auto
  then have lt: "last ?t \<in> set ?t" by (rule last_in_set)
  from u have "?u \<noteq> []" by auto
  then have lu: "last ?u \<in> set ?u" by (rule last_in_set)
  from C4_capacity_invariant[of Alloc "ex_funcs 7" 0 0 4 "[Push (5::nat), Reserve 100, Resize 2, Pop]"
      "ex_funcs (CHR ''?'')" 0 "''ab''" "[Concat_cstr ''cd'', Concat_char (CHR ''e'')]"] lt lu
  have "da_length (last ?t) \<le> da_capacity (last ?t)" "da_length (last ?u) \<le> da_capacity (last ?u)"
    by blast+
  with t u show ?thesis by (intro conjI)
qed

section \<open>Cells moved and copied; the terminator invariant\<close>













section \<open>The terminator invariant: reassign and append\<close>













section \<open>Searching a dstring\<close>







section \<open>The terminator invariant: replace and trim\<close>














section \<open>C8: the terminator invariant\<close>




end
